theory Spec2Isabelle
  imports Main "HOL-Library.Sublist"
begin

section \<open>Sudoku-Validator.c: data model\<close>

text \<open>
  The macros \<^verbatim>\<open>SIZE\<close> and \<^verbatim>\<open>NUM_THREADS\<close> are textual, so they are abbreviations.
  Cell values are C \<^verbatim>\<open>int\<close>s; the only arithmetic on them is \<^verbatim>\<open>num - 1\<close>, computed
  for \<open>1 \<le> num \<le> 9\<close> only, so no overflow can occur and they are modelled as \<open>int\<close>.
  Indices (\<^verbatim>\<open>row\<close>, \<^verbatim>\<open>col\<close>, loop counters) are never negative and are \<open>nat\<close>.
\<close>

abbreviation (input) SIZE :: nat where
  "SIZE \<equiv> 9"

abbreviation (input) NUM_THREADS :: nat where
  "NUM_THREADS \<equiv> SIZE * 3"

abbreviation (input) EXIT_SUCCESS :: int where
  "EXIT_SUCCESS \<equiv> 0"

abbreviation (input) EXIT_FAILURE :: int where
  "EXIT_FAILURE \<equiv> 1"

type_synonym grid = "int list list"

text \<open>The C type \<^verbatim>\<open>int [SIZE][SIZE]\<close> always has 9 rows of 9 cells.\<close>

definition wf_grid :: "grid \<Rightarrow> bool" where
  "wf_grid g \<longleftrightarrow> length g = SIZE \<and> (\<forall>r \<in> set g. length r = SIZE)"

record parameters =
  row :: nat
  col :: nat
  sudoku :: grid

record validationResult =
  valid :: int
  message :: string

text \<open>
  What one thread does to memory shared with others: the cells of its grid copy it reads,
  in order, and the stores to \<^verbatim>\<open>results[]\<close> it performs inside its critical section
  (slot index and the value the slot holds when the mutex is released).
\<close>

record trace =
  reads :: "(nat \<times> nat) list"
  writes :: "(nat \<times> validationResult) list"

section \<open>sprintf\<close>

definition digit :: "nat \<Rightarrow> char" where
  "digit n = ''0123456789'' ! n"

function fmt_d :: "nat \<Rightarrow> string" where
  "fmt_d n = (if n < 10 then [digit n] else fmt_d (n div 10) @ [digit (n mod 10)])"
  by pat_completeness auto
termination
  by (relation "measure id") auto

declare fmt_d.simps [simp del]

text \<open>\<^verbatim>\<open>%2d\<close>: right-justified in a field of width 2, padded with spaces.\<close>

definition fmt_2d :: "nat \<Rightarrow> string" where
  "fmt_2d n = replicate (2 - length (fmt_d n)) (CHR '' '') @ fmt_d n"

text \<open>
  The six format strings of the source all have the shape
  \<^verbatim>\<open>"Thread # %2d (KIND %d) is VERDICT\n"\<close>.
\<close>

definition sprintf :: "string \<Rightarrow> string \<Rightarrow> nat \<Rightarrow> nat \<Rightarrow> string" where
  "sprintf kind verdict a b =
     ''Thread # '' @ fmt_2d a @ '' ('' @ kind @ '' '' @ fmt_d b @ '') is '' @ verdict @ [CHR 0x0A]"

section \<open>The three check routines\<close>

text \<open>
  Each loop is a recursive function over its counter. \<^verbatim>\<open>pthread_exit\<close> inside the loop
  ends the thread, so that branch returns the thread's whole trace; the code after the loop
  is the branch taken when the loop condition fails. \<^verbatim>\<open>check[num - 1]++\<close> tests the old
  counter and stores the incremented one.
\<close>

function checkRow_loop :: "parameters \<Rightarrow> int list \<Rightarrow> nat \<Rightarrow> (nat \<times> nat) list \<Rightarrow> trace" where
  "checkRow_loop data check i rd =
     (if i < SIZE then
        (let num = sudoku data ! row data ! i;
             rd' = rd @ [(row data, i)]
         in if num < 1 \<or> num > int SIZE \<or> check ! nat (num - 1) \<noteq> 0 then
              \<lparr>reads = rd',
               writes = [(row data,
                 \<lparr>valid = 0,
                  message = sprintf ''row'' ''INVALID'' (row data + 1) (row data + 1)\<rparr>)]\<rparr>
            else
              checkRow_loop data (check[nat (num - 1) := check ! nat (num - 1) + 1]) (i + 1) rd')
      else
        \<lparr>reads = rd,
         writes = [(row data,
           \<lparr>valid = 1,
            message = sprintf ''row'' ''valid'' (row data + 1) (row data + 1)\<rparr>)]\<rparr>)"
  by pat_completeness auto
termination
  by (relation "measure (\<lambda>(data, check, i, rd). SIZE - i)") auto

declare checkRow_loop.simps [simp del]

definition checkRow :: "parameters \<Rightarrow> trace" where
  "checkRow data = checkRow_loop data (replicate SIZE 0) 0 []"

function checkColumn_loop :: "parameters \<Rightarrow> int list \<Rightarrow> nat \<Rightarrow> (nat \<times> nat) list \<Rightarrow> trace" where
  "checkColumn_loop data check i rd =
     (if i < SIZE then
        (let num = sudoku data ! i ! col data;
             rd' = rd @ [(i, col data)]
         in if num < 1 \<or> num > int SIZE \<or> check ! nat (num - 1) \<noteq> 0 then
              \<lparr>reads = rd',
               writes = [(SIZE + col data,
                 \<lparr>valid = 0,
                  message = sprintf ''column'' ''INVALID'' (col data + 10) (col data + 1)\<rparr>)]\<rparr>
            else
              checkColumn_loop data (check[nat (num - 1) := check ! nat (num - 1) + 1]) (i + 1) rd')
      else
        \<lparr>reads = rd,
         writes = [(SIZE + col data,
           \<lparr>valid = 1,
            message = sprintf ''column'' ''valid'' (col data + 10) (col data + 1)\<rparr>)]\<rparr>)"
  by pat_completeness auto
termination
  by (relation "measure (\<lambda>(data, check, i, rd). SIZE - i)") auto

declare checkColumn_loop.simps [simp del]

definition checkColumn :: "parameters \<Rightarrow> trace" where
  "checkColumn data = checkColumn_loop data (replicate SIZE 0) 0 []"

text \<open>
  The inner loop of \<^verbatim>\<open>checkSubgrid\<close> either ends the thread (\<open>Inl\<close>, with the trace) or
  runs to its end and hands the counters and the read log back to the outer loop (\<open>Inr\<close>).
  \<^verbatim>\<open>index\<close> is at least \<^verbatim>\<open>2 * SIZE\<close>, so the subtraction on natural numbers in the
  message argument is exact.
\<close>

function checkSubgrid_cols ::
  "parameters \<Rightarrow> nat \<Rightarrow> nat \<Rightarrow> int list \<Rightarrow> nat \<Rightarrow> (nat \<times> nat) list
     \<Rightarrow> trace + int list \<times> (nat \<times> nat) list" where
  "checkSubgrid_cols data index r check c rd =
     (if c < col data + 3 then
        (let num = sudoku data ! r ! c;
             rd' = rd @ [(r, c)]
         in if num < 1 \<or> num > int SIZE \<or> check ! nat (num - 1) \<noteq> 0 then
              Inl \<lparr>reads = rd',
                   writes = [(index,
                     \<lparr>valid = 0,
                      message = sprintf ''subgrid'' ''INVALID'' (index + 1) (index - 2 * SIZE + 1)\<rparr>)]\<rparr>
            else
              checkSubgrid_cols data index r
                (check[nat (num - 1) := check ! nat (num - 1) + 1]) (c + 1) rd')
      else Inr (check, rd))"
  by pat_completeness auto
termination
  by (relation "measure (\<lambda>(data, index, r, check, c, rd). col data + 3 - c)") auto

declare checkSubgrid_cols.simps [simp del]

function checkSubgrid_rows ::
  "parameters \<Rightarrow> nat \<Rightarrow> int list \<Rightarrow> nat \<Rightarrow> (nat \<times> nat) list \<Rightarrow> trace" where
  "checkSubgrid_rows data index check r rd =
     (if r < row data + 3 then
        (case checkSubgrid_cols data index r check (col data) rd of
           Inl t \<Rightarrow> t
         | Inr (check', rd') \<Rightarrow> checkSubgrid_rows data index check' (r + 1) rd')
      else
        \<lparr>reads = rd,
         writes = [(index,
           \<lparr>valid = 1,
            message = sprintf ''subgrid'' ''valid'' (index + 1) (index - 2 * SIZE + 1)\<rparr>)]\<rparr>)"
  by pat_completeness auto
termination
  by (relation "measure (\<lambda>(data, index, check, r, rd). row data + 3 - r)") auto

declare checkSubgrid_rows.simps [simp del]

definition checkSubgrid :: "parameters \<Rightarrow> trace" where
  "checkSubgrid data =
     (let rowStart = row data;
          colStart = col data;
          index = (rowStart div 3) * 3 + (colStart div 3) + (2 * SIZE)
      in checkSubgrid_rows data index (replicate SIZE 0) rowStart [])"

section \<open>Loading the grid\<close>

text \<open>
  A file system maps a path to \<open>None\<close> when \<^verbatim>\<open>fopen\<close> fails. An open file is
  represented by what the successive \<^verbatim>\<open>fscanf(file, "%d", ...)\<close> calls on it do, in order:
  \<open>Some x\<close> for a call that converts an integer and stores \<open>x\<close>, \<open>None\<close> for a call that
  fails and stores nothing. A failed call may still have consumed input (a lone sign, for
  instance), so calls after a failed one can convert again; once the list is used up every
  call fails, as at the end of the file. The source ignores the value \<^verbatim>\<open>fscanf\<close> returns.
\<close>

type_synonym stream = "int option list"

type_synonym filesystem = "string \<Rightarrow> stream option"

definition fscanf_d :: "stream \<Rightarrow> int option \<times> stream" where
  "fscanf_d file = (case file of [] \<Rightarrow> (None, []) | x # rest \<Rightarrow> (x, rest))"

function loadSudoku_cols :: "stream \<Rightarrow> grid \<Rightarrow> nat \<Rightarrow> nat \<Rightarrow> stream \<times> grid" where
  "loadSudoku_cols file g i j =
     (if j < SIZE then
        (case fscanf_d file of
           (None, file') \<Rightarrow> loadSudoku_cols file' g i (j + 1)
         | (Some x, file') \<Rightarrow> loadSudoku_cols file' (g[i := (g ! i)[j := x]]) i (j + 1))
      else (file, g))"
  by pat_completeness auto
termination
  by (relation "measure (\<lambda>(file, g, i, j). SIZE - j)") auto

declare loadSudoku_cols.simps [simp del]

function loadSudoku_rows :: "stream \<Rightarrow> grid \<Rightarrow> nat \<Rightarrow> grid" where
  "loadSudoku_rows file g i =
     (if i < SIZE then
        (case loadSudoku_cols file g i 0 of (file', g') \<Rightarrow> loadSudoku_rows file' g' (i + 1))
      else g)"
  by pat_completeness auto
termination
  by (relation "measure (\<lambda>(file, g, i). SIZE - i)") auto

declare loadSudoku_rows.simps [simp del]

text \<open>
  \<open>Inl code\<close> is \<^verbatim>\<open>exit(code)\<close>. The grid argument is the caller's array as it is on
  entry: \<^verbatim>\<open>main\<close> passes a local array it never initialised.
\<close>

definition loadSudoku :: "filesystem \<Rightarrow> string \<Rightarrow> grid \<Rightarrow> int + grid" where
  "loadSudoku fs filename g =
     (case fs filename of
        None \<Rightarrow> Inl EXIT_FAILURE
      | Some file \<Rightarrow> Inr (loadSudoku_rows file g 0))"

section \<open>main\<close>

datatype routine = CheckRow | CheckColumn | CheckSubgrid

fun start_routine :: "routine \<Rightarrow> parameters \<Rightarrow> trace" where
  "start_routine CheckRow data = checkRow data"
| "start_routine CheckColumn data = checkColumn data"
| "start_routine CheckSubgrid data = checkSubgrid data"

text \<open>
  A created thread: the index into \<^verbatim>\<open>tids[]\<close> and \<^verbatim>\<open>params[]\<close> it was created at, its
  start routine, and the contents of \<^verbatim>\<open>params[index]\<close> when it was created. The creation
  loops return the threads in the order of the \<^verbatim>\<open>pthread_create\<close> calls.
\<close>

type_synonym thread = "nat \<times> routine \<times> parameters"

function create_rows_columns :: "grid \<Rightarrow> nat \<Rightarrow> thread list" where
  "create_rows_columns g i =
     (if i < SIZE then
        [(i, CheckRow, \<lparr>row = i, col = 0, sudoku = g\<rparr>),
         (SIZE + i, CheckColumn, \<lparr>row = 0, col = i, sudoku = g\<rparr>)]
        @ create_rows_columns g (i + 1)
      else [])"
  by pat_completeness auto
termination
  by (relation "measure (\<lambda>(g, i). SIZE - i)") auto

declare create_rows_columns.simps [simp del]

function create_subgrids_j :: "grid \<Rightarrow> nat \<Rightarrow> nat \<Rightarrow> thread list" where
  "create_subgrids_j g i j =
     (if j < SIZE then
        (let index = 2 * SIZE + (i + j div 3)
         in (index, CheckSubgrid, \<lparr>row = i, col = j, sudoku = g\<rparr>) # create_subgrids_j g i (j + 3))
      else [])"
  by pat_completeness auto
termination
  by (relation "measure (\<lambda>(g, i, j). SIZE - j)") auto

declare create_subgrids_j.simps [simp del]

function create_subgrids_i :: "grid \<Rightarrow> nat \<Rightarrow> thread list" where
  "create_subgrids_i g i =
     (if i < SIZE then create_subgrids_j g i 0 @ create_subgrids_i g (i + 3) else [])"
  by pat_completeness auto
termination
  by (relation "measure (\<lambda>(g, i). SIZE - i)") auto

declare create_subgrids_i.simps [simp del]

definition create_threads :: "grid \<Rightarrow> thread list" where
  "create_threads g = create_rows_columns g 0 @ create_subgrids_i g 0"

text \<open>
  \<^verbatim>\<open>validationResult results[NUM_THREADS]\<close> has static storage, so it starts zeroed:
  \<^verbatim>\<open>valid\<close> is 0 and \<^verbatim>\<open>message\<close> is the empty string.
\<close>

definition results_init :: "validationResult list" where
  "results_init = replicate NUM_THREADS \<lparr>valid = 0, message = []\<rparr>"

definition store :: "validationResult list \<Rightarrow> nat \<times> validationResult \<Rightarrow> validationResult list" where
  "store tab w = tab[fst w := snd w]"

definition run_thread :: "thread \<Rightarrow> trace" where
  "run_thread th = (case th of (index, routine, data) \<Rightarrow> start_routine routine data)"

text \<open>
  Every thread works on its own copy of the grid and touches shared memory only in its one
  critical section, so a run of the threads is fixed by the order in which they take the
  mutex: a schedule lists the threads, by position in creation order, in that order.
  \<^verbatim>\<open>join_threads\<close> is the table after all \<^verbatim>\<open>pthread_join\<close> calls have returned.
\<close>

definition schedule :: "nat list \<Rightarrow> bool" where
  "schedule sched \<longleftrightarrow> distinct sched \<and> set sched = {0..<NUM_THREADS}"

definition join_threads ::
  "thread list \<Rightarrow> nat list \<Rightarrow> validationResult list \<Rightarrow> validationResult list" where
  "join_threads threads sched tab =
     foldl (\<lambda>tab k. foldl store tab (writes (run_thread (threads ! k)))) tab sched"

text \<open>
  What \<^verbatim>\<open>main\<close> does to \<^verbatim>\<open>results[]\<close> after the join is logged, one entry for every
  expression of the source that touches a slot: \<open>Load i\<close> where \<^verbatim>\<open>results[i]\<close> is read,
  \<open>Store i\<close> where it would be assigned. The reduction loop reads \<^verbatim>\<open>results[i].valid\<close>
  and leaves at the first 0; \<^verbatim>\<open>printResults\<close> reads \<^verbatim>\<open>results[i].valid\<close> and then, in
  either branch, \<^verbatim>\<open>results[i].message\<close>.
\<close>

datatype access = Load nat | Store nat

function isValid_loop :: "validationResult list \<Rightarrow> nat \<Rightarrow> access list \<Rightarrow> bool \<times> access list" where
  "isValid_loop tab i acc =
     (if i < NUM_THREADS then
        (if valid (tab ! i) = 0 then (False, acc @ [Load i])
         else isValid_loop tab (i + 1) (acc @ [Load i]))
      else (True, acc))"
  by pat_completeness auto
termination
  by (relation "measure (\<lambda>(tab, i, acc). NUM_THREADS - i)") auto

declare isValid_loop.simps [simp del]

definition printResults :: "validationResult list \<Rightarrow> string list \<times> access list" where
  "printResults tab =
     (map (\<lambda>i. if valid (tab ! i) \<noteq> 0 then message (tab ! i) else message (tab ! i))
        [0..<NUM_THREADS],
      concat (map (\<lambda>i. [Load i, Load i]) [0..<NUM_THREADS]))"

text \<open>
  The part of \<^verbatim>\<open>main\<close> between loading and printing (thread creation, join, and the
  reduction loop) is what the specification calls \<open>validate\<close>: it returns \<^verbatim>\<open>isValid\<close>
  and the table.
\<close>

definition validate :: "nat list \<Rightarrow> grid \<Rightarrow> bool \<times> validationResult list" where
  "validate sched g =
     (let tab = join_threads (create_threads g) sched results_init
      in (fst (isValid_loop tab 0 []), tab))"

record run =
  exit_code :: int
  stdout :: "string list"
  created :: "thread list"
  results :: "validationResult list"
  accesses :: "access list"

text \<open>
  \<open>stack\<close> is the content of \<^verbatim>\<open>main\<close>'s uninitialised local array. With \<^verbatim>\<open>argc = 0\<close>
  the usage line would print a null \<^verbatim>\<open>argv[0]\<close>; its text is left as \<open>argv ! 0\<close>.
  \<open>results\<close> is the table when \<^verbatim>\<open>main\<close> returns and \<open>accesses\<close> what \<^verbatim>\<open>main\<close> did to it
  after the join.
\<close>

definition main :: "filesystem \<Rightarrow> grid \<Rightarrow> nat list \<Rightarrow> string list \<Rightarrow> run" where
  "main fs stack sched argv =
     (if length argv \<noteq> 2 then
        \<lparr>exit_code = EXIT_FAILURE,
         stdout = [''Usage: '' @ argv ! 0 @ '' <sudoku_puzzle_file>'' @ [CHR 0x0A]],
         created = [], results = results_init, accesses = []\<rparr>
      else
        (case loadSudoku fs (argv ! 1) stack of
           Inl code \<Rightarrow>
             \<lparr>exit_code = code, stdout = [], created = [], results = results_init,
              accesses = []\<rparr>
         | Inr g \<Rightarrow>
             (case validate sched g of
                (isValid, tab) \<Rightarrow>
                  \<lparr>exit_code = EXIT_SUCCESS,
                   stdout = fst (printResults tab) @
                     [if isValid then argv ! 1 @ '' contains a valid solution'' @ [CHR 0x0A]
                      else argv ! 1 @ '' contains an INVALID solution'' @ [CHR 0x0A]],
                   created = create_threads g,
                   results = tab,
                   accesses = snd (isValid_loop tab 0 []) @ snd (printResults tab)\<rparr>)))"

section \<open>Check units and their cells\<close>

text \<open>
  The 27 units by slot: rows 0-8, columns 0-8, then the blocks row-major. These are the
  cell sets of the specification, against which the routines are verified.
\<close>

definition unit_positions :: "nat \<Rightarrow> (nat \<times> nat) list" where
  "unit_positions k =
     (if k < 9 then map (\<lambda>j. (k, j)) [0..<9]
      else if k < 18 then map (\<lambda>j. (j, k - 9)) [0..<9]
      else concat (map (\<lambda>r. map (\<lambda>c. (r, c)) [3 * ((k - 18) mod 3)..<3 * ((k - 18) mod 3) + 3])
                    [3 * ((k - 18) div 3)..<3 * ((k - 18) div 3) + 3]))"

definition unit_cells :: "grid \<Rightarrow> nat \<Rightarrow> int list" where
  "unit_cells g k = map (\<lambda>(r, c). g ! r ! c) (unit_positions k)"

text \<open>The slots of the three units that contain cell \<open>(r, c)\<close>.\<close>

definition units_of :: "nat \<Rightarrow> nat \<Rightarrow> nat set" where
  "units_of r c = {r, 9 + c, 18 + 3 * (r div 3) + c div 3}"

text \<open>Cell \<open>j\<close> of a unit is out of range or repeats an earlier cell of the unit.\<close>

definition bad_at :: "int list \<Rightarrow> nat \<Rightarrow> bool" where
  "bad_at cells j \<longleftrightarrow> cells ! j < 1 \<or> cells ! j > 9 \<or> cells ! j \<in> set (take j cells)"

definition set_cell :: "grid \<Rightarrow> nat \<Rightarrow> nat \<Rightarrow> int \<Rightarrow> grid" where
  "set_cell g r c v = g[r := (g ! r)[c := v]]"

text \<open>
  The scan shared by the three routines, on the list of the cells still to visit: how many
  cells are inspected, and the counters at the end when no cell is rejected.
\<close>

fun scan :: "int list \<Rightarrow> int list \<Rightarrow> nat \<times> int list option" where
  "scan check [] = (0, Some check)"
| "scan check (num # rest) =
     (if num < 1 \<or> num > 9 \<or> check ! nat (num - 1) \<noteq> 0 then (1, None)
      else (case scan (check[nat (num - 1) := check ! nat (num - 1) + 1]) rest of
              (n, r) \<Rightarrow> (Suc n, r)))"

definition seen :: "int list \<Rightarrow> int set" where
  "seen check = {x. 1 \<le> x \<and> x \<le> 9 \<and> check ! nat (x - 1) \<noteq> 0}"

text \<open>
  What the unit of slot \<open>k\<close> is expected to leave behind: its verdict and message, and the
  trace of a thread that performs its scan.
\<close>

definition unit_ok :: "grid \<Rightarrow> nat \<Rightarrow> bool" where
  "unit_ok g k \<longleftrightarrow> (\<forall>x \<in> set (unit_cells g k). 1 \<le> x \<and> x \<le> 9) \<and> distinct (unit_cells g k)"

definition unit_kind :: "nat \<Rightarrow> string" where
  "unit_kind k = (if k < 9 then ''row'' else if k < 18 then ''column'' else ''subgrid'')"

definition unit_result :: "grid \<Rightarrow> nat \<Rightarrow> validationResult" where
  "unit_result g k =
     (if snd (scan (replicate 9 0) (unit_cells g k)) = None
      then \<lparr>valid = 0, message = sprintf (unit_kind k) ''INVALID'' (k + 1) (k mod 9 + 1)\<rparr>
      else \<lparr>valid = 1, message = sprintf (unit_kind k) ''valid'' (k + 1) (k mod 9 + 1)\<rparr>)"

definition unit_trace :: "grid \<Rightarrow> nat \<Rightarrow> trace" where
  "unit_trace g k =
     \<lparr>reads = take (fst (scan (replicate 9 0) (unit_cells g k))) (unit_positions k),
      writes = [(k, unit_result g k)]\<rparr>"

text \<open>The slots in the order in which \<^verbatim>\<open>main\<close> creates their threads.\<close>

definition thread_slots :: "nat list" where
  "thread_slots = concat (map (\<lambda>i. [i, 9 + i]) [0..<9]) @ [18..<27]"

text \<open>The stores to the table in the order in which a schedule performs them.\<close>

definition write_log :: "thread list \<Rightarrow> nat list \<Rightarrow> (nat \<times> validationResult) list" where
  "write_log threads sched = concat (map (\<lambda>p. writes (run_thread (threads ! p))) sched)"

text \<open>Concrete inputs on which the theorems are instantiated: a solved puzzle and a zeroed array.\<close>

definition solved_grid :: grid where
  "solved_grid =
     [[5, 3, 4, 6, 7, 8, 9, 1, 2],
      [6, 7, 2, 1, 9, 5, 3, 4, 8],
      [1, 9, 8, 3, 4, 2, 5, 6, 7],
      [8, 5, 9, 7, 6, 1, 4, 2, 3],
      [4, 2, 6, 8, 5, 3, 7, 9, 1],
      [7, 1, 3, 9, 2, 4, 8, 5, 6],
      [9, 6, 1, 5, 3, 7, 2, 8, 4],
      [2, 8, 7, 4, 1, 9, 6, 3, 5],
      [3, 4, 5, 2, 8, 6, 1, 7, 9]]"

definition zero_grid :: grid where
  "zero_grid = replicate 9 (replicate 9 0)"

text \<open>The kind of unit a start routine checks, and the 0-based number of the unit its parameters select.\<close>

definition routine_kind :: "routine \<Rightarrow> string" where
  "routine_kind rt = (case rt of CheckRow \<Rightarrow> ''row'' | CheckColumn \<Rightarrow> ''column'' | CheckSubgrid \<Rightarrow> ''subgrid'')"

definition routine_unit :: "routine \<Rightarrow> parameters \<Rightarrow> nat" where
  "routine_unit rt data =
     (case rt of
        CheckRow \<Rightarrow> row data
      | CheckColumn \<Rightarrow> col data
      | CheckSubgrid \<Rightarrow> 3 * (row data div 3) + col data div 3)"

text \<open>
  A file that holds the given integers, separated by white space, and nothing else: every
  call converts the next integer until the file ends. \<open>file_of\<close> is the file with the cells
  of a grid, row by row.
\<close>

definition stream_of :: "int list \<Rightarrow> stream" where
  "stream_of xs = map Some xs"

definition file_of :: "grid \<Rightarrow> stream" where
  "file_of g = stream_of (concat g)"

text \<open>
  \<open>call file n\<close> is what call number \<open>n\<close> (from 0) on a file does. \<open>loaded file g\<close> is the
  array \<open>g\<close> after loading: cell \<open>(i, j)\<close> is decided by call number \<open>9 * i + j\<close>, which
  either stores into it or leaves what it held.
\<close>

definition call :: "stream \<Rightarrow> nat \<Rightarrow> int option" where
  "call file n = (if n < length file then file ! n else None)"

definition loaded :: "stream \<Rightarrow> grid \<Rightarrow> grid" where
  "loaded file g =
     map (\<lambda>i. map (\<lambda>j. case call file (9 * i + j) of Some x \<Rightarrow> x | None \<Rightarrow> g ! i ! j) [0..<9])
       [0..<9]"

definition nine_grid :: grid where
  "nine_grid = replicate 9 (replicate 9 9)"

section \<open>The scan\<close>

lemma seen_update:
  assumes "1 \<le> x" "x \<le> 9" "length check = 9" "check ! nat (x - 1) = 0"
  shows "seen (check[nat (x - 1) := check ! nat (x - 1) + 1]) = insert x (seen check)"
proof -
  have inj: "nat (y - 1) = nat (x - 1) \<longleftrightarrow> y = x" if "1 \<le> y" for y
    using that assms(1) by auto
  have len: "nat (y - 1) < length check" if "1 \<le> y" "y \<le> 9" for y
    using that assms(3) by auto
  have "y \<in> seen (check[nat (x - 1) := check ! nat (x - 1) + 1]) \<longleftrightarrow> y \<in> insert x (seen check)" for y
  proof (cases "1 \<le> y \<and> y \<le> 9")
    case True
    then show ?thesis
      using inj [of y] len [of y] assms(4)
      by (cases "y = x") (simp_all add: seen_def nth_list_update)
  next
    case False
    then show ?thesis using assms(1,2) by (auto simp: seen_def)
  qed
  then show ?thesis by blast
qed

lemma seen_replicate: "seen (replicate 9 0) = {}"
  by (auto simp: seen_def)

lemma scan_fst_le: "scan check ns = (n, r) \<Longrightarrow> n \<le> length ns"
  by (induction ns arbitrary: check n r) (fastforce split: prod.splits if_splits)+

lemma scan_fst_Some: "scan check ns = (n, Some check') \<Longrightarrow> n = length ns"
  by (induction ns arbitrary: check n) (fastforce split: prod.splits if_splits)+

lemma scan_length: "scan check ns = (n, Some check') \<Longrightarrow> length check' = length check"
  by (induction ns arbitrary: check n) (fastforce split: prod.splits if_splits)+

lemma scan_Some_iff:
  "length check = 9 \<Longrightarrow>
   snd (scan check ns) \<noteq> None \<longleftrightarrow>
     (\<forall>x \<in> set ns. 1 \<le> x \<and> x \<le> 9 \<and> x \<notin> seen check) \<and> distinct ns"
proof (induction ns arbitrary: check)
  case Nil
  then show ?case by simp
next
  case (Cons num rest)
  show ?case
  proof (cases "num < 1 \<or> num > 9 \<or> check ! nat (num - 1) \<noteq> 0")
    case True
    then show ?thesis by (auto simp: seen_def)
  next
    case False
    let ?check' = "check[nat (num - 1) := check ! nat (num - 1) + 1]"
    from False have rng: "1 \<le> num" "num \<le> 9" and z: "check ! nat (num - 1) = 0" by auto
    have s: "seen ?check' = insert num (seen check)"
      using seen_update [OF rng Cons.prems z] .
    have ns: "num \<notin> seen check" using z by (simp add: seen_def)
    have "snd (scan check (num # rest)) = snd (scan ?check' rest)"
      using False by (simp split: prod.splits)
    moreover have "length ?check' = 9" using Cons.prems by simp
    ultimately show ?thesis
      using Cons.IH [of ?check'] s ns rng by auto
  qed
qed

lemma scan_append:
  "scan check (xs @ ys) =
     (case scan check xs of
        (n, None) \<Rightarrow> (n, None)
      | (n, Some check') \<Rightarrow> (case scan check' ys of (m, r) \<Rightarrow> (n + m, r)))"
  by (induction xs arbitrary: check) (auto split: prod.splits option.splits)

lemma scan_None_first_bad:
  assumes "length check = 9" "scan check ns = (n, None)"
  shows "0 < n \<and> n \<le> length ns \<and> snd (scan check (take (n - 1) ns)) \<noteq> None
         \<and> snd (scan check (take n ns)) = None"
  using assms
proof (induction ns arbitrary: check n)
  case Nil
  then show ?case by simp
next
  case (Cons num rest)
  show ?case
  proof (cases "num < 1 \<or> num > 9 \<or> check ! nat (num - 1) \<noteq> 0")
    case True
    with Cons.prems show ?thesis by auto
  next
    case False
    let ?check' = "check[nat (num - 1) := check ! nat (num - 1) + 1]"
    obtain m where m: "scan ?check' rest = (m, None)" and n: "n = Suc m"
      using Cons.prems(2) False by (auto split: prod.splits)
    have len: "length ?check' = 9" using Cons.prems(1) by simp
    from Cons.IH [OF len m]
    have ih: "0 < m" "m \<le> length rest" "snd (scan ?check' (take (m - 1) rest)) \<noteq> None"
      "snd (scan ?check' (take m rest)) = None" by auto
    have t1: "take (n - 1) (num # rest) = num # take (m - 1) rest"
      using n ih(1) by (cases m) auto
    show ?thesis
      using ih False n unfolding t1 by (auto split: prod.splits)
  qed
qed

section \<open>The loops of the routines perform the scan\<close>

lemma checkRow_loop_scan:
  "checkRow_loop data check i rd =
     (case scan check (map (\<lambda>j. sudoku data ! row data ! j) [i..<9]) of
        (n, r) \<Rightarrow>
          \<lparr>reads = rd @ take n (map (Pair (row data)) [i..<9]),
           writes = [(row data,
             \<lparr>valid = (if r = None then 0 else 1),
              message = sprintf ''row'' (if r = None then ''INVALID'' else ''valid'')
                          (row data + 1) (row data + 1)\<rparr>)]\<rparr>)"
proof (induction data check i rd rule: checkRow_loop.induct)
  case (1 data check i rd)
  show ?case
  proof (cases "i < 9")
    case False
    then show ?thesis by (subst checkRow_loop.simps) simp
  next
    case True
    define num where "num = sudoku data ! row data ! i"
    define check' where "check' = check[nat (num - 1) := check ! nat (num - 1) + 1]"
    have upt: "[i..<9] = i # [i + 1..<9]" using True by (simp add: upt_conv_Cons)
    show ?thesis
    proof (cases "num < 1 \<or> num > 9 \<or> check ! nat (num - 1) \<noteq> 0")
      case bad: True
      have "checkRow_loop data check i rd =
              \<lparr>reads = rd @ [(row data, i)],
               writes = [(row data, \<lparr>valid = 0,
                 message = sprintf ''row'' ''INVALID'' (row data + 1) (row data + 1)\<rparr>)]\<rparr>"
        using True bad by (subst checkRow_loop.simps) (simp add: Let_def num_def)
      moreover have "scan check (map (\<lambda>j. sudoku data ! row data ! j) [i..<9]) = (1, None)"
        using bad by (subst upt) (simp add: num_def)
      ultimately show ?thesis by (simp add: upt)
    next
      case good: False
      obtain n r where sc: "scan check' (map (\<lambda>j. sudoku data ! row data ! j) [i + 1..<9]) = (n, r)"
        by (cases "scan check' (map (\<lambda>j. sudoku data ! row data ! j) [i + 1..<9])")
      have step: "checkRow_loop data check i rd = checkRow_loop data check' (i + 1) (rd @ [(row data, i)])"
        using True good by (subst checkRow_loop.simps) (simp add: Let_def num_def check'_def)
      have ih: "checkRow_loop data check' (i + 1) (rd @ [(row data, i)]) =
                  \<lparr>reads = (rd @ [(row data, i)]) @ take n (map (Pair (row data)) [i + 1..<9]),
                    writes = [(row data,
                      \<lparr>valid = (if r = None then 0 else 1),
                       message = sprintf ''row'' (if r = None then ''INVALID'' else ''valid'')
                          (row data + 1) (row data + 1)\<rparr>)]\<rparr>"
        using "1.IH" [OF True num_def refl] good sc
        unfolding check'_def num_def by simp
      have "scan check (map (\<lambda>j. sudoku data ! row data ! j) [i..<9]) = (Suc n, r)"
        using good sc by (subst upt) (simp add: num_def check'_def)
      then show ?thesis unfolding step ih by (simp add: upt)
    qed
  qed
qed

lemma checkColumn_loop_scan:
  "checkColumn_loop data check i rd =
     (case scan check (map (\<lambda>j. sudoku data ! j ! col data) [i..<9]) of
        (n, r) \<Rightarrow>
          \<lparr>reads = rd @ take n (map (\<lambda>j. (j, col data)) [i..<9]),
           writes = [(9 + col data,
             \<lparr>valid = (if r = None then 0 else 1),
              message = sprintf ''column'' (if r = None then ''INVALID'' else ''valid'')
                          (col data + 10) (col data + 1)\<rparr>)]\<rparr>)"
proof (induction data check i rd rule: checkColumn_loop.induct)
  case (1 data check i rd)
  show ?case
  proof (cases "i < 9")
    case False
    then show ?thesis by (subst checkColumn_loop.simps) simp
  next
    case True
    define num where "num = sudoku data ! i ! col data"
    define check' where "check' = check[nat (num - 1) := check ! nat (num - 1) + 1]"
    have upt: "[i..<9] = i # [i + 1..<9]" using True by (simp add: upt_conv_Cons)
    show ?thesis
    proof (cases "num < 1 \<or> num > 9 \<or> check ! nat (num - 1) \<noteq> 0")
      case bad: True
      have "checkColumn_loop data check i rd =
              \<lparr>reads = rd @ [(i, col data)],
               writes = [(9 + col data, \<lparr>valid = 0,
                 message = sprintf ''column'' ''INVALID'' (col data + 10) (col data + 1)\<rparr>)]\<rparr>"
        using True bad by (subst checkColumn_loop.simps) (simp add: Let_def num_def)
      moreover have "scan check (map (\<lambda>j. sudoku data ! j ! col data) [i..<9]) = (1, None)"
        using bad by (subst upt) (simp add: num_def)
      ultimately show ?thesis by (simp add: upt)
    next
      case good: False
      obtain n r where sc: "scan check' (map (\<lambda>j. sudoku data ! j ! col data) [i + 1..<9]) = (n, r)"
        by (cases "scan check' (map (\<lambda>j. sudoku data ! j ! col data) [i + 1..<9])")
      have step: "checkColumn_loop data check i rd = checkColumn_loop data check' (i + 1) (rd @ [(i, col data)])"
        using True good by (subst checkColumn_loop.simps) (simp add: Let_def num_def check'_def)
      have ih: "checkColumn_loop data check' (i + 1) (rd @ [(i, col data)]) =
                  \<lparr>reads = (rd @ [(i, col data)]) @ take n (map (\<lambda>j. (j, col data)) [i + 1..<9]),
                    writes = [(9 + col data,
                      \<lparr>valid = (if r = None then 0 else 1),
                       message = sprintf ''column'' (if r = None then ''INVALID'' else ''valid'')
                          (col data + 10) (col data + 1)\<rparr>)]\<rparr>"
        using "1.IH" [OF True num_def refl] good sc
        unfolding check'_def num_def by simp
      have "scan check (map (\<lambda>j. sudoku data ! j ! col data) [i..<9]) = (Suc n, r)"
        using good sc by (subst upt) (simp add: num_def check'_def)
      then show ?thesis unfolding step ih by (simp add: upt)
    qed
  qed
qed

lemma checkSubgrid_cols_scan:
  "checkSubgrid_cols data index r check c rd =
     (case scan check (map (\<lambda>j. sudoku data ! r ! j) [c..<col data + 3]) of
        (n, None) \<Rightarrow>
          Inl \<lparr>reads = rd @ take n (map (Pair r) [c..<col data + 3]),
               writes = [(index,
                 \<lparr>valid = 0,
                  message = sprintf ''subgrid'' ''INVALID'' (index + 1) (index - 18 + 1)\<rparr>)]\<rparr>
      | (n, Some check') \<Rightarrow> Inr (check', rd @ map (Pair r) [c..<col data + 3]))"
proof (induction data index r check c rd rule: checkSubgrid_cols.induct)
  case (1 data index r check c rd)
  show ?case
  proof (cases "c < col data + 3")
    case False
    then show ?thesis by (subst checkSubgrid_cols.simps) simp
  next
    case True
    define num where "num = sudoku data ! r ! c"
    define check' where "check' = check[nat (num - 1) := check ! nat (num - 1) + 1]"
    have upt: "[c..<col data + 3] = c # [c + 1..<col data + 3]"
      using True by (simp add: upt_conv_Cons)
    show ?thesis
    proof (cases "num < 1 \<or> num > 9 \<or> check ! nat (num - 1) \<noteq> 0")
      case bad: True
      have "checkSubgrid_cols data index r check c rd =
              Inl \<lparr>reads = rd @ [(r, c)],
                   writes = [(index, \<lparr>valid = 0,
                     message = sprintf ''subgrid'' ''INVALID'' (index + 1) (index - 18 + 1)\<rparr>)]\<rparr>"
        using True bad by (subst checkSubgrid_cols.simps) (simp add: Let_def num_def)
      moreover have "scan check (map (\<lambda>j. sudoku data ! r ! j) [c..<col data + 3]) = (1, None)"
        using bad by (subst upt) (simp add: num_def)
      ultimately show ?thesis by (simp add: upt)
    next
      case good: False
      obtain n res where sc:
        "scan check' (map (\<lambda>j. sudoku data ! r ! j) [c + 1..<col data + 3]) = (n, res)"
        by (cases "scan check' (map (\<lambda>j. sudoku data ! r ! j) [c + 1..<col data + 3])")
      have step: "checkSubgrid_cols data index r check c rd =
                  checkSubgrid_cols data index r check' (c + 1) (rd @ [(r, c)])"
        using True good by (subst checkSubgrid_cols.simps) (simp add: Let_def num_def check'_def)
      have ih: "checkSubgrid_cols data index r check' (c + 1) (rd @ [(r, c)]) =
                  (case res of
                     None \<Rightarrow>
                       Inl \<lparr>reads = (rd @ [(r, c)]) @ take n (map (Pair r) [c + 1..<col data + 3]),
                            writes = [(index,
                              \<lparr>valid = 0,
                               message = sprintf ''subgrid'' ''INVALID'' (index + 1) (index - 18 + 1)\<rparr>)]\<rparr>
                   | Some check'' \<Rightarrow>
                       Inr (check'', (rd @ [(r, c)]) @ map (Pair r) [c + 1..<col data + 3]))"
        using "1.IH" [OF True num_def refl] good sc
        unfolding check'_def num_def by (simp split: option.splits)
      have "scan check (map (\<lambda>j. sudoku data ! r ! j) [c..<col data + 3]) = (Suc n, res)"
        using good sc by (subst upt) (simp add: num_def check'_def)
      then show ?thesis unfolding step ih by (simp add: upt split: option.splits)
    qed
  qed
qed

lemma checkSubgrid_rows_scan:
  "checkSubgrid_rows data index check r rd =
     (case scan check
             (concat (map (\<lambda>i. map (\<lambda>j. sudoku data ! i ! j) [col data..<col data + 3])
                        [r..<row data + 3])) of
        (n, res) \<Rightarrow>
          \<lparr>reads = rd @ take n (concat (map (\<lambda>i. map (Pair i) [col data..<col data + 3])
                                          [r..<row data + 3])),
           writes = [(index,
             \<lparr>valid = (if res = None then 0 else 1),
              message = sprintf ''subgrid'' (if res = None then ''INVALID'' else ''valid'')
                          (index + 1) (index - 18 + 1)\<rparr>)]\<rparr>)"
proof (induction data index check r rd rule: checkSubgrid_rows.induct)
  case (1 data index check r rd)
  show ?case
  proof (cases "r < row data + 3")
    case False
    then show ?thesis by (subst checkSubgrid_rows.simps) simp
  next
    case True
    define xs where "xs = map (\<lambda>j. sudoku data ! r ! j) [col data..<col data + 3]"
    define ps where "ps = map (Pair r) [col data..<col data + 3]"
    define ys where "ys = concat (map (\<lambda>i. map (\<lambda>j. sudoku data ! i ! j) [col data..<col data + 3])
                        [r + 1..<row data + 3])"
    define qs where "qs = concat (map (\<lambda>i. map (Pair i) [col data..<col data + 3])
                                          [r + 1..<row data + 3])"
    have upt: "[r..<row data + 3] = r # [r + 1..<row data + 3]"
      using True by (simp add: upt_conv_Cons)
    have cells: "concat (map (\<lambda>i. map (\<lambda>j. sudoku data ! i ! j) [col data..<col data + 3])
                        [r..<row data + 3]) = xs @ ys"
      by (subst upt) (simp add: xs_def ys_def)
    have poss: "concat (map (\<lambda>i. map (Pair i) [col data..<col data + 3]) [r..<row data + 3]) = ps @ qs"
      by (subst upt) (simp add: ps_def qs_def)
    have len: "length xs = length ps" by (simp add: xs_def ps_def)
    obtain n res where sc: "scan check xs = (n, res)" by (cases "scan check xs")
    show ?thesis
    proof (cases res)
      case None
      have n: "n \<le> length ps" using scan_fst_le [OF sc] len by simp
      have "checkSubgrid_rows data index check r rd =
              \<lparr>reads = rd @ take n ps,
               writes = [(index, \<lparr>valid = 0,
                 message = sprintf ''subgrid'' ''INVALID'' (index + 1) (index - 18 + 1)\<rparr>)]\<rparr>"
        using True sc None
        by (subst checkSubgrid_rows.simps) (simp add: checkSubgrid_cols_scan xs_def ps_def)
      moreover have "scan check (xs @ ys) = (n, None)"
        using sc None by (simp add: scan_append)
      ultimately show ?thesis unfolding cells poss using n by simp
    next
      case (Some check')
      have n: "n = length ps" using scan_fst_Some sc Some len by metis
      obtain m res' where sc': "scan check' ys = (m, res')" by (cases "scan check' ys")
      have inner: "checkSubgrid_cols data index r check (col data) rd = Inr (check', rd @ ps)"
        using sc Some by (simp add: checkSubgrid_cols_scan xs_def ps_def)
      have step: "checkSubgrid_rows data index check r rd =
                  checkSubgrid_rows data index check' (r + 1) (rd @ ps)"
        using True by (subst checkSubgrid_rows.simps) (simp add: inner)
      have ih: "checkSubgrid_rows data index check' (r + 1) (rd @ ps) =
                  \<lparr>reads = (rd @ ps) @ take m qs,
                   writes = [(index,
                     \<lparr>valid = (if res' = None then 0 else 1),
                      message = sprintf ''subgrid'' (if res' = None then ''INVALID'' else ''valid'')
                          (index + 1) (index - 18 + 1)\<rparr>)]\<rparr>"
        using "1.IH" [OF True inner refl] sc' unfolding ys_def qs_def by simp
      have "scan check (xs @ ys) = (n + m, res')"
        using sc Some sc' by (simp add: scan_append)
      then show ?thesis unfolding step ih cells poss using n by simp
    qed
  qed
qed

section \<open>The routines on the units created by main\<close>

lemma checkRow_unit:
  "i < 9 \<Longrightarrow> checkRow \<lparr>row = i, col = c, sudoku = g\<rparr> = unit_trace g i"
  by (simp add: checkRow_def checkRow_loop_scan unit_trace_def unit_result_def unit_cells_def
      unit_positions_def unit_kind_def comp_def split: prod.splits)

lemma checkColumn_unit:
  "i < 9 \<Longrightarrow> checkColumn \<lparr>row = r, col = i, sudoku = g\<rparr> = unit_trace g (9 + i)"
  by (simp add: checkColumn_def checkColumn_loop_scan unit_trace_def unit_result_def unit_cells_def
      unit_positions_def unit_kind_def comp_def add.commute split: prod.splits)

lemma subgrid_slot_arith:
  assumes "br < (3::nat)" "bc < (3::nat)" "k = 18 + 3 * br + bc"
  shows "(k - 18) mod 3 = bc" "(k - 18) div 3 = br" "k mod 9 = 3 * br + bc"
    "k - 18 = 3 * br + bc" "\<not> k < 9" "\<not> k < 18"
proof -
  have d: "k - 18 = 3 * br + bc" using assms by simp
  show "k - 18 = 3 * br + bc" by (rule d)
  show "(k - 18) mod 3 = bc" "(k - 18) div 3 = br" unfolding d using assms by simp_all
  have "k = 9 * 2 + (3 * br + bc)" using assms by simp
  moreover have "3 * br + bc < 9" using assms by simp
  ultimately show "k mod 9 = 3 * br + bc" by (metis mod_mult_self4 mod_less)
  show "\<not> k < 9" "\<not> k < 18" using assms by simp_all
qed

lemma checkSubgrid_unit:
  assumes "br < 3" "bc < 3"
  shows "checkSubgrid \<lparr>row = 3 * br, col = 3 * bc, sudoku = g\<rparr> = unit_trace g (18 + 3 * br + bc)"
proof -
  define k where "k = 18 + 3 * br + bc"
  note a = subgrid_slot_arith [OF assms k_def]
  have idx: "(3 * br div 3) * 3 + 3 * bc div 3 + 2 * 9 = k"
    by (simp add: k_def)
  have pos: "unit_positions k =
      concat (map (\<lambda>i. map (Pair i) [3 * bc..<3 * bc + 3]) [3 * br..<3 * br + 3])"
    by (simp only: unit_positions_def a(1,2,5,6) if_False)
  have cel: "unit_cells g k =
      concat (map (\<lambda>i. map (\<lambda>j. g ! i ! j) [3 * bc..<3 * bc + 3]) [3 * br..<3 * br + 3])"
    by (simp add: unit_cells_def pos map_concat comp_def)
  obtain n res where sc: "scan (replicate 9 0) (unit_cells g k) = (n, res)"
    by (cases "scan (replicate 9 0) (unit_cells g k)")
  have "checkSubgrid \<lparr>row = 3 * br, col = 3 * bc, sudoku = g\<rparr> =
        checkSubgrid_rows \<lparr>row = 3 * br, col = 3 * bc, sudoku = g\<rparr> k (replicate 9 0) (3 * br) []"
    unfolding checkSubgrid_def Let_def by (simp only: parameters.simps idx)
  also have "\<dots> = unit_trace g k"
    using sc unfolding checkSubgrid_rows_scan
    by (simp add: unit_trace_def unit_result_def unit_kind_def a pos cel [symmetric])
  finally show ?thesis by (simp add: k_def)
qed

section \<open>Thread creation\<close>

lemma upt_0_9: "[0..<9] = [0, 1, 2, 3, 4, 5, 6, 7, 8]"
  by (simp add: upt_rec [of _ "numeral _"] upt_rec [of 0])

lemma upt_0_3: "[0..<3] = [0, 1, 2]"
  by (simp add: upt_rec [of _ "numeral _"] upt_rec [of 0])

lemma create_rows_columns_eq:
  "create_rows_columns g 0 =
     concat (map (\<lambda>i. [(i, CheckRow, \<lparr>row = i, col = 0, sudoku = g\<rparr>),
                        (9 + i, CheckColumn, \<lparr>row = 0, col = i, sudoku = g\<rparr>)]) [0..<9])"
  by (simp add: create_rows_columns.simps upt_rec [of _ "numeral _"] upt_rec [of 0])

lemma create_subgrids_eq:
  "create_subgrids_i g 0 =
     concat (map (\<lambda>br. map (\<lambda>bc. (18 + 3 * br + bc, CheckSubgrid,
                                      \<lparr>row = 3 * br, col = 3 * bc, sudoku = g\<rparr>)) [0..<3]) [0..<3])"
  by (simp add: create_subgrids_i.simps create_subgrids_j.simps Let_def
      upt_rec [of _ "numeral _"] upt_rec [of 0])


lemma thread_slots_eq:
  "thread_slots = [0, 9, 1, 10, 2, 11, 3, 12, 4, 13, 5, 14, 6, 15, 7, 16, 8, 17,
                   18, 19, 20, 21, 22, 23, 24, 25, 26]"
  by (simp add: thread_slots_def upt_0_9 upt_rec [of "numeral _" "numeral _"])

lemma length_thread_slots: "length thread_slots = 27"
  by (simp add: thread_slots_eq)

lemma distinct_thread_slots: "distinct thread_slots"
  by (simp add: thread_slots_eq)

lemma set_thread_slots: "set thread_slots = {0..<27}"
proof (rule set_eqI)
  fix x
  show "x \<in> set thread_slots \<longleftrightarrow> x \<in> {0..<27}"
    unfolding thread_slots_eq by (simp del: upt_Suc) arith
qed

lemma map_fst_create_threads: "map fst (create_threads g) = thread_slots"
  by (simp add: create_threads_def create_rows_columns_eq create_subgrids_eq thread_slots_eq
      upt_0_9 upt_0_3)

lemma run_create_threads: "map run_thread (create_threads g) = map (unit_trace g) thread_slots"
proof -
  have sub: "checkSubgrid \<lparr>row = 3 * br, col = 3 * bc, sudoku = g\<rparr> = unit_trace g (18 + 3 * br + bc)"
    if "br \<in> {0, 1, 2}" "bc \<in> {0, 1, 2}" for br bc
    using that by (intro checkSubgrid_unit) auto
  show ?thesis
    using sub [of 0 0] sub [of 0 1] sub [of 0 2] sub [of 1 0] sub [of 1 1] sub [of 1 2]
      sub [of 2 0] sub [of 2 1] sub [of 2 2]
    by (simp add: create_threads_def create_rows_columns_eq create_subgrids_eq thread_slots_eq
        run_thread_def checkRow_unit checkColumn_unit
        upt_0_9 upt_0_3)
qed

section \<open>The table after the join\<close>

lemma run_thread_nth:
  assumes "p < 27"
  shows "run_thread (create_threads g ! p) = unit_trace g (thread_slots ! p)"
proof -
  have len: "length (create_threads g) = 27"
    using arg_cong [OF map_fst_create_threads, of length g] by (simp add: length_thread_slots)
  have "map run_thread (create_threads g) ! p = map (unit_trace g) thread_slots ! p"
    by (simp only: run_create_threads)
  then show ?thesis using assms len by (simp add: length_thread_slots)
qed

lemma length_create_threads: "length (create_threads g) = 27"
  using arg_cong [OF map_fst_create_threads, of length g] by (simp add: length_thread_slots)

lemma length_join_threads: "length (join_threads threads sched tab) = length tab"
proof (induction sched arbitrary: tab)
  case Nil
  then show ?case by (simp add: join_threads_def)
next
  case (Cons p ps)
  have len: "length (foldl store tab ws) = length tab" for ws
    by (induction ws arbitrary: tab) (simp_all add: store_def)
  have "join_threads threads (p # ps) tab =
        join_threads threads ps (foldl store tab (writes (run_thread (threads ! p))))"
    by (simp add: join_threads_def)
  then show ?case using Cons.IH len by simp
qed

lemma join_create_threads_nth:
  assumes "set sched \<subseteq> {0..<27}" "k < length tab"
  shows "join_threads (create_threads g) sched tab ! k =
           (if k \<in> (\<lambda>p. thread_slots ! p) ` set sched then unit_result g k else tab ! k)"
  using assms
proof (induction sched arbitrary: tab)
  case Nil
  then show ?case by (simp add: join_threads_def)
next
  case (Cons p ps)
  let ?tab' = "tab[thread_slots ! p := unit_result g (thread_slots ! p)]"
  have p: "p < 27" using Cons.prems(1) by simp
  have "join_threads (create_threads g) (p # ps) tab = join_threads (create_threads g) ps ?tab'"
    by (simp add: join_threads_def run_thread_nth [OF p] unit_trace_def store_def)
  moreover have "join_threads (create_threads g) ps ?tab' ! k =
       (if k \<in> (\<lambda>p. thread_slots ! p) ` set ps then unit_result g k else ?tab' ! k)"
    using Cons.IH [of ?tab'] Cons.prems by simp
  ultimately show ?case using Cons.prems(2) by (auto simp: nth_list_update)
qed

lemma isValid_loop_iff:
  "fst (isValid_loop tab i acc) \<longleftrightarrow> (\<forall>k. i \<le> k \<and> k < 27 \<longrightarrow> valid (tab ! k) \<noteq> 0)"
proof (induction tab i acc rule: isValid_loop.induct)
  case (1 tab i acc)
  show ?case
  proof (cases "i < 27")
    case False
    then show ?thesis by (subst isValid_loop.simps) simp
  next
    case True
    show ?thesis
    proof (cases "valid (tab ! i) = 0")
      case z: True
      then show ?thesis using True by (subst isValid_loop.simps) auto
    next
      case nz: False
      have "isValid_loop tab i acc = isValid_loop tab (i + 1) (acc @ [Load i])"
        using True nz by (subst isValid_loop.simps) simp
      then have "fst (isValid_loop tab i acc) \<longleftrightarrow>
                 (\<forall>k. i + 1 \<le> k \<and> k < 27 \<longrightarrow> valid (tab ! k) \<noteq> 0)"
        using "1.IH" True nz by simp
      also have "\<dots> \<longleftrightarrow> (\<forall>k. i \<le> k \<and> k < 27 \<longrightarrow> valid (tab ! k) \<noteq> 0)"
        using nz by (metis Suc_eq_plus1 Suc_leI le_neq_implies_less Suc_leD)
      finally show ?thesis .
    qed
  qed
qed

lemma isValid_loop_accesses:
  "a \<in> set (snd (isValid_loop tab i acc)) \<Longrightarrow> a \<in> set acc \<or> (\<exists>k<27. a = Load k)"
proof (induction tab i acc rule: isValid_loop.induct)
  case (1 tab i acc)
  show ?case
  proof (cases "i < 27")
    case False
    then show ?thesis using "1.prems" by (subst (asm) isValid_loop.simps) simp
  next
    case True
    show ?thesis
    proof (cases "valid (tab ! i) = 0")
      case z: True
      have "isValid_loop tab i acc = (False, acc @ [Load i])"
        using True z by (subst isValid_loop.simps) simp
      then show ?thesis using "1.prems" True by auto
    next
      case nz: False
      have "isValid_loop tab i acc = isValid_loop tab (i + 1) (acc @ [Load i])"
        using True nz by (subst isValid_loop.simps) simp
      then have "a \<in> set (snd (isValid_loop tab (i + 1) (acc @ [Load i])))"
        using "1.prems" by simp
      then have "a \<in> set (acc @ [Load i]) \<or> (\<exists>k<27. a = Load k)"
        using "1.IH" True nz by simp
      then show ?thesis using True by auto
    qed
  qed
qed

lemma printResults_accesses:
  "a \<in> set (snd (printResults tab)) \<Longrightarrow> \<exists>k<27. a = Load k"
  by (auto simp: printResults_def simp del: upt_Suc)

lemma validate_table:
  assumes "schedule sched"
  shows "snd (validate sched g) = map (unit_result g) [0..<27]"
proof (rule nth_equalityI)
  show "length (snd (validate sched g)) = length (map (unit_result g) [0..<27])"
    by (simp add: validate_def Let_def length_join_threads results_init_def)
next
  fix k assume "k < length (snd (validate sched g))"
  then have k: "k < 27"
    by (simp add: validate_def Let_def length_join_threads results_init_def)
  have sub: "set sched \<subseteq> {0..<27}" using assms by (simp add: schedule_def)
  have "(\<lambda>p. thread_slots ! p) ` set sched = set thread_slots"
    using assms by (auto simp: schedule_def set_conv_nth length_thread_slots)
  then have "k \<in> (\<lambda>p. thread_slots ! p) ` set sched"
    using k by (simp add: set_thread_slots)
  then have "join_threads (create_threads g) sched results_init ! k = unit_result g k"
    using join_create_threads_nth [OF sub, of k results_init g] k
    by (simp add: results_init_def)
  then show "snd (validate sched g) ! k = map (unit_result g) [0..<27] ! k"
    using k by (simp add: validate_def Let_def del: upt_Suc)
qed

lemma validate_isValid:
  assumes "schedule sched"
  shows "fst (validate sched g) \<longleftrightarrow> (\<forall>k<27. valid (unit_result g k) \<noteq> 0)"
proof -
  have "fst (validate sched g) = fst (isValid_loop (snd (validate sched g)) 0 [])"
    by (simp add: validate_def Let_def)
  then show ?thesis
    unfolding validate_table [OF assms] isValid_loop_iff by (simp del: upt_Suc)
qed

section \<open>Verdicts of the units\<close>

lemma length_unit_positions: "length (unit_positions k) = 9"
  by (simp add: unit_positions_def length_concat comp_def sum_list_triv del: upt_Suc)

lemma length_unit_cells: "length (unit_cells g k) = 9"
  by (simp add: unit_cells_def length_unit_positions)

lemma unit_result_valid: "valid (unit_result g k) = (if unit_ok g k then 1 else 0)"
proof -
  have "snd (scan (replicate 9 0) (unit_cells g k)) \<noteq> None \<longleftrightarrow> unit_ok g k"
    using scan_Some_iff [of "replicate 9 0" "unit_cells g k"]
    by (simp add: unit_ok_def seen_replicate)
  then show ?thesis by (auto simp: unit_result_def)
qed

lemma unit_ok_perm:
  "unit_ok g k \<longleftrightarrow> distinct (unit_cells g k) \<and> set (unit_cells g k) = {1..9}"
proof
  assume ok: "unit_ok g k"
  then have sub: "set (unit_cells g k) \<subseteq> {1..9}" and d: "distinct (unit_cells g k)"
    by (auto simp: unit_ok_def)
  have "card (set (unit_cells g k)) = 9"
    using d by (simp add: distinct_card length_unit_cells)
  moreover have "card {1..9::int} = 9" by simp
  ultimately have "set (unit_cells g k) = {1..9}"
    using sub by (intro card_subset_eq) auto
  with d show "distinct (unit_cells g k) \<and> set (unit_cells g k) = {1..9}" by simp
next
  assume "distinct (unit_cells g k) \<and> set (unit_cells g k) = {1..9}"
  then show "unit_ok g k" by (auto simp: unit_ok_def)
qed

lemma schedule_upt: "schedule [0..<27]"
  by (simp add: schedule_def del: upt_Suc)

lemma schedule_rev: "schedule (rev [0..<27])"
  by (simp add: schedule_def del: upt_Suc)

lemma all_less_27: "(\<forall>k<27. P k) \<longleftrightarrow> list_all P [0..<27]"
  by (auto simp: list_all_iff simp del: upt_Suc)

lemma solved_grid_ok: "\<forall>k<27. unit_ok solved_grid k"
  unfolding all_less_27 by code_simp

lemma wf_solved_grid: "wf_grid solved_grid"
  by (simp add: wf_grid_def solved_grid_def)

lemma validate_all_ok:
  "schedule sched \<Longrightarrow> fst (validate sched g) \<longleftrightarrow> (\<forall>k<27. unit_ok g k)"
  unfolding validate_isValid by (auto simp: unit_result_valid)

section \<open>Aggregate and per-unit verdicts\<close>

lemma validate_nth:
  "schedule sched \<Longrightarrow> k < 27 \<Longrightarrow> snd (validate sched g) ! k = unit_result g k"
  by (simp add: validate_table del: upt_Suc)

text \<open>
  C1. For every grid, \<open>validate\<close> returns 27 outcomes, each \<open>valid\<close> field is 0 or 1, and
  the overall boolean is true exactly when all 27 \<open>valid\<close> fields are 1. If every row, column
  and 3x3 block of the grid is a permutation of the digits 1-9, the overall boolean is true
  and all 27 outcomes are valid. This holds for every order in which the threads run.
\<close>

theorem validate_aggregate:
  assumes "schedule sched"
  shows "length (snd (validate sched g)) = 27
    \<and> (\<forall>k<27. valid (snd (validate sched g) ! k) \<in> {0, 1})
    \<and> (fst (validate sched g) \<longleftrightarrow> (\<forall>k<27. valid (snd (validate sched g) ! k) = 1))
    \<and> ((\<forall>k<27. distinct (unit_cells g k) \<and> set (unit_cells g k) = {1..9})
          \<longrightarrow> fst (validate sched g) \<and> (\<forall>k<27. valid (snd (validate sched g) ! k) = 1))"
proof -
  have len: "length (snd (validate sched g)) = 27"
    by (simp add: validate_table [OF assms] del: upt_Suc)
  have nth: "valid (snd (validate sched g) ! k) = (if unit_ok g k then 1 else 0)" if "k < 27" for k
    using validate_nth [OF assms that] by (simp add: unit_result_valid)
  have agg: "fst (validate sched g) \<longleftrightarrow> (\<forall>k<27. unit_ok g k)"
    unfolding validate_isValid [OF assms] by (auto simp: unit_result_valid)
  have all1: "(\<forall>k<27. valid (snd (validate sched g) ! k) = 1) \<longleftrightarrow> (\<forall>k<27. unit_ok g k)"
    using nth by auto
  have bin: "\<forall>k<27. valid (snd (validate sched g) ! k) \<in> {0, 1}"
    using nth by auto
  have perm: "(\<forall>k<27. distinct (unit_cells g k) \<and> set (unit_cells g k) = {1..9})
                \<longleftrightarrow> (\<forall>k<27. unit_ok g k)"
    by (simp add: unit_ok_perm)
  show ?thesis
    unfolding perm all1 agg using len bin by blast
qed

theorem validate_aggregate_witness:
  "schedule (rev [0..<27])
   \<and> list_all (\<lambda>k. distinct (unit_cells solved_grid k) \<and> set (unit_cells solved_grid k) = {1..9})
         [0..<27]
   \<and> fst (validate (rev [0..<27]) solved_grid)
   \<and> list_all (\<lambda>k. valid (snd (validate (rev [0..<27]) solved_grid) ! k) = 1) [0..<27]"
proof -
  have perm: "\<forall>k<27. distinct (unit_cells solved_grid k) \<and> set (unit_cells solved_grid k) = {1..9}"
    using solved_grid_ok by (simp add: unit_ok_perm)
  show ?thesis
    using validate_aggregate [OF schedule_rev, of solved_grid] perm schedule_rev
    unfolding all_less_27 by blast
qed

text \<open>
  C2. For every grid and each of the 27 units, the outcome in the unit's slot has
  \<open>valid = 1\<close> if and only if the unit's nine cells all lie in 1..9 and no value occurs
  twice, which is to say that the cells are the digits 1-9, each once; otherwise
  \<open>valid = 0\<close>.
\<close>

theorem unit_valid_iff:
  assumes "schedule sched" "k < 27"
  shows "(valid (snd (validate sched g) ! k) = 1 \<longleftrightarrow>
           (\<forall>x \<in> set (unit_cells g k). 1 \<le> x \<and> x \<le> 9) \<and> distinct (unit_cells g k))
    \<and> (valid (snd (validate sched g) ! k) = 1 \<longleftrightarrow>
           distinct (unit_cells g k) \<and> set (unit_cells g k) = {1..9})
    \<and> (valid (snd (validate sched g) ! k) \<noteq> 1 \<longrightarrow> valid (snd (validate sched g) ! k) = 0)"
proof -
  have "valid (snd (validate sched g) ! k) = (if unit_ok g k then 1 else 0)"
    using validate_nth [OF assms] by (simp add: unit_result_valid)
  then show ?thesis
    using unit_ok_perm [of g k] by (simp add: unit_ok_def)
qed

theorem unit_valid_iff_witness:
  "schedule [0..<27] \<and> (22::nat) < 27
   \<and> unit_cells solved_grid 22 = [7, 6, 1, 8, 5, 3, 9, 2, 4]
   \<and> valid (snd (validate [0..<27] solved_grid) ! 22) = 1
   \<and> unit_cells zero_grid 22 = [0, 0, 0, 0, 0, 0, 0, 0, 0]
   \<and> valid (snd (validate [0..<27] zero_grid) ! 22) = 0"
proof -
  have c: "unit_cells solved_grid 22 = [7, 6, 1, 8, 5, 3, 9, 2, 4]"
    by code_simp
  have z: "unit_cells zero_grid 22 = [0, 0, 0, 0, 0, 0, 0, 0, 0]"
    by code_simp
  have k: "(22::nat) < 27" by simp
  show ?thesis
    using unit_valid_iff [OF schedule_upt k, of solved_grid]
      unit_valid_iff [OF schedule_upt k, of zero_grid] schedule_upt
    unfolding c z by simp
qed

section \<open>Slots\<close>

lemma create_threads_nth_fst: "p < 27 \<Longrightarrow> fst (create_threads g ! p) = thread_slots ! p"
  using arg_cong [OF map_fst_create_threads, of "\<lambda>xs. xs ! p" g]
  by (simp add: length_create_threads)

lemma thread_in_create_threads:
  assumes "th \<in> set (create_threads g)"
  shows "fst th < 27 \<and> run_thread th = unit_trace g (fst th)"
proof -
  obtain p where p: "p < 27" "th = create_threads g ! p"
    using assms by (auto simp: in_set_conv_nth length_create_threads)
  have "thread_slots ! p \<in> set thread_slots"
    using p(1) by (simp add: length_thread_slots)
  then have "thread_slots ! p < 27" by (simp add: set_thread_slots)
  then show ?thesis
    using p run_thread_nth [OF p(1), of g] create_threads_nth_fst [OF p(1), of g] by simp
qed

text \<open>
  C5. The 27 threads are created at 27 different indices, which are exactly 0..26: row
  \<open>i\<close> at index \<open>i\<close>, column \<open>i\<close> at \<open>9 + i\<close>, and the block at block-row \<open>br\<close> and
  block-column \<open>bc\<close> at \<open>18 + 3 * br + bc\<close>. Every thread stores to the slot whose number is
  the index it was created at, so the slot computed inside each routine (for blocks, by the
  arithmetic on \<open>rowStart\<close> and \<open>colStart\<close>) agrees with the index computed at creation.
\<close>

theorem slot_bijection:
  "length (create_threads g) = 27
   \<and> distinct (map fst (create_threads g))
   \<and> set (map fst (create_threads g)) = {0..<27}
   \<and> (\<forall>i<9. (i, CheckRow, \<lparr>row = i, col = 0, sudoku = g\<rparr>) \<in> set (create_threads g)
            \<and> (9 + i, CheckColumn, \<lparr>row = 0, col = i, sudoku = g\<rparr>) \<in> set (create_threads g))
   \<and> (\<forall>br<3. \<forall>bc<3.
         (18 + 3 * br + bc, CheckSubgrid, \<lparr>row = 3 * br, col = 3 * bc, sudoku = g\<rparr>)
           \<in> set (create_threads g))
   \<and> (\<forall>th \<in> set (create_threads g). map fst (writes (run_thread th)) = [fst th])"
proof -
  have rows: "(i, CheckRow, \<lparr>row = i, col = 0, sudoku = g\<rparr>) \<in> set (create_threads g)
            \<and> (9 + i, CheckColumn, \<lparr>row = 0, col = i, sudoku = g\<rparr>) \<in> set (create_threads g)"
    if "i < 9" for i
    using that by (auto simp: create_threads_def create_rows_columns_eq simp del: upt_Suc)
  have blocks: "(18 + 3 * br + bc, CheckSubgrid, \<lparr>row = 3 * br, col = 3 * bc, sudoku = g\<rparr>)
           \<in> set (create_threads g)" if "br < 3" "bc < 3" for br bc
  proof -
    have "(18 + 3 * br + bc, CheckSubgrid, \<lparr>row = 3 * br, col = 3 * bc, sudoku = g\<rparr>)
           \<in> set (create_subgrids_i g 0)"
      unfolding create_subgrids_eq using that by (force simp del: upt_Suc)
    then show ?thesis by (simp add: create_threads_def)
  qed
  have wr: "map fst (writes (run_thread th)) = [fst th]" if "th \<in> set (create_threads g)" for th
    using thread_in_create_threads [OF that] by (simp add: unit_trace_def)
  show ?thesis
    using rows blocks wr
    by (simp add: length_create_threads map_fst_create_threads distinct_thread_slots
        set_thread_slots)
qed

theorem slot_bijection_witness:
  "(4, CheckRow, \<lparr>row = 4, col = 0, sudoku = solved_grid\<rparr>) \<in> set (create_threads solved_grid)
   \<and> (13, CheckColumn, \<lparr>row = 0, col = 4, sudoku = solved_grid\<rparr>) \<in> set (create_threads solved_grid)
   \<and> (22, CheckSubgrid, \<lparr>row = 3, col = 3, sudoku = solved_grid\<rparr>) \<in> set (create_threads solved_grid)
   \<and> map fst (writes (run_thread (22, CheckSubgrid, \<lparr>row = 3, col = 3, sudoku = solved_grid\<rparr>))) = [22]"
proof -
  note t = slot_bijection [of solved_grid]
  from t have r: "\<forall>i<9. (i, CheckRow, \<lparr>row = i, col = 0, sudoku = solved_grid\<rparr>)
                         \<in> set (create_threads solved_grid)
          \<and> (9 + i, CheckColumn, \<lparr>row = 0, col = i, sudoku = solved_grid\<rparr>)
                         \<in> set (create_threads solved_grid)"
    by blast
  from t have b: "\<forall>br<3. \<forall>bc<3.
         (18 + 3 * br + bc, CheckSubgrid, \<lparr>row = 3 * br, col = 3 * bc, sudoku = solved_grid\<rparr>)
           \<in> set (create_threads solved_grid)"
    by blast
  from t have w: "\<forall>th \<in> set (create_threads solved_grid). map fst (writes (run_thread th)) = [fst th]"
    by blast
  have b22: "(22, CheckSubgrid, \<lparr>row = 3, col = 3, sudoku = solved_grid\<rparr>)
               \<in> set (create_threads solved_grid)"
    using b [rule_format, of 1 1] by simp
  show ?thesis
    using r [rule_format, of 4] b22 w [rule_format, OF b22] by simp
qed

section \<open>Short-circuit scanning\<close>

lemma bad_at_append:
  "j < length xs \<Longrightarrow> bad_at (xs @ ys) j = bad_at xs j"
  by (simp add: bad_at_def nth_append)

lemma bad_at_take:
  "j < m \<Longrightarrow> m \<le> length xs \<Longrightarrow> bad_at (take m xs) j = bad_at xs j"
  by (simp add: bad_at_def min_def)

lemma good_iff_no_bad:
  "(\<forall>x \<in> set xs. 1 \<le> x \<and> x \<le> 9) \<and> distinct xs \<longleftrightarrow> (\<forall>j<length xs. \<not> bad_at xs j)"
proof (induction xs rule: rev_induct)
  case Nil
  then show ?case by simp
next
  case (snoc x xs)
  have last: "bad_at (xs @ [x]) (length xs) \<longleftrightarrow> x < 1 \<or> x > 9 \<or> x \<in> set xs"
    by (simp add: bad_at_def)
  have "(\<forall>j<length (xs @ [x]). \<not> bad_at (xs @ [x]) j) \<longleftrightarrow>
        (\<forall>j<length xs. \<not> bad_at xs j) \<and> \<not> bad_at (xs @ [x]) (length xs)"
    by (auto simp: less_Suc_eq bad_at_append)
  then show ?case using snoc.IH last by auto
qed

lemma scan_init_Some:
  assumes "scan (replicate 9 0) ns = (n, Some check')"
  shows "n = length ns \<and> (\<forall>j<length ns. \<not> bad_at ns j)"
proof -
  have "snd (scan (replicate 9 0) ns) \<noteq> None" using assms by simp
  then have "(\<forall>x \<in> set ns. 1 \<le> x \<and> x \<le> 9) \<and> distinct ns"
    using scan_Some_iff [of "replicate 9 0" ns] by (simp add: seen_replicate)
  then show ?thesis using scan_fst_Some [OF assms] by (simp add: good_iff_no_bad)
qed

lemma scan_init_None:
  assumes "scan (replicate 9 0) ns = (n, None)"
  shows "0 < n \<and> n \<le> length ns \<and> bad_at ns (n - 1) \<and> (\<forall>j<n - 1. \<not> bad_at ns j)"
proof -
  have fb: "0 < n" "n \<le> length ns" "snd (scan (replicate 9 0) (take (n - 1) ns)) \<noteq> None"
    "snd (scan (replicate 9 0) (take n ns)) = None"
    using scan_None_first_bad [OF _ assms] by simp_all
  have l1: "length (take (n - 1) ns) = n - 1" and l2: "length (take n ns) = n"
    using fb(2) by simp_all
  have "(\<forall>x \<in> set (take (n - 1) ns). 1 \<le> x \<and> x \<le> 9) \<and> distinct (take (n - 1) ns)"
    using fb(3) scan_Some_iff [of "replicate 9 0" "take (n - 1) ns"]
    by (simp add: seen_replicate)
  then have good: "\<forall>j<n - 1. \<not> bad_at (take (n - 1) ns) j"
    unfolding good_iff_no_bad l1 .
  have g: "\<not> bad_at ns j" if "j < n - 1" for j
  proof -
    have "n - 1 \<le> length ns" using fb(2) by simp
    from bad_at_take [OF that this] good that show ?thesis by simp
  qed
  have "\<not> ((\<forall>x \<in> set (take n ns). 1 \<le> x \<and> x \<le> 9) \<and> distinct (take n ns))"
    using fb(4) scan_Some_iff [of "replicate 9 0" "take n ns"]
    by (simp add: seen_replicate)
  then have "\<not> (\<forall>j<n. \<not> bad_at (take n ns) j)"
    unfolding good_iff_no_bad l2 .
  then obtain j where j: "j < n" "bad_at (take n ns) j" by blast
  have bj: "bad_at ns j" using bad_at_take [OF j(1) fb(2)] j(2) by simp
  have "\<not> j < n - 1" using g bj by blast
  then have "j = n - 1" using j(1) by arith
  then show ?thesis using fb(1,2) g bj by simp
qed

text \<open>
  C6. Every created thread finishes (all routines are total functions) having read at most
  nine cells: its reads are an initial segment of the unit's nine cells in scan order. It
  stores exactly one outcome. When the outcome is valid it has read all nine cells and none
  of them is out of range or a repetition. When the outcome is invalid the last cell it
  read is the first cell of the unit that is out of range or repeats an earlier cell, and no
  later cell is read.
\<close>

theorem scan_short_circuit:
  assumes "th \<in> set (create_threads g)"
  shows "length (reads (run_thread th)) \<le> 9
    \<and> reads (run_thread th) = take (length (reads (run_thread th))) (unit_positions (fst th))
    \<and> (\<exists>res. writes (run_thread th) = [(fst th, res)]
          \<and> (valid res = 1 \<or> valid res = 0)
          \<and> (valid res = 1 \<longrightarrow>
                reads (run_thread th) = unit_positions (fst th)
                \<and> (\<forall>j<9. \<not> bad_at (unit_cells g (fst th)) j))
          \<and> (valid res = 0 \<longrightarrow>
                0 < length (reads (run_thread th))
                \<and> bad_at (unit_cells g (fst th)) (length (reads (run_thread th)) - 1)
                \<and> (\<forall>j<length (reads (run_thread th)) - 1. \<not> bad_at (unit_cells g (fst th)) j)))"
proof -
  define k where "k = fst th"
  have run: "run_thread th = unit_trace g k"
    using thread_in_create_threads [OF assms] by (simp add: k_def)
  obtain n r where sc: "scan (replicate 9 0) (unit_cells g k) = (n, r)"
    by (cases "scan (replicate 9 0) (unit_cells g k)")
  have n: "n \<le> 9" using scan_fst_le [OF sc] by (simp add: length_unit_cells)
  have rd: "reads (unit_trace g k) = take n (unit_positions k)"
    by (simp add: unit_trace_def sc)
  have len: "length (reads (unit_trace g k)) = n"
    using n by (simp add: rd length_unit_positions)
  have wr: "writes (unit_trace g k) = [(k, unit_result g k)]"
    by (simp add: unit_trace_def)
  show ?thesis
  proof (cases r)
    case None
    have v: "valid (unit_result g k) = 0" by (simp add: unit_result_def sc None)
    show ?thesis
      unfolding run k_def [symmetric] len wr
      using scan_init_None [OF sc [unfolded None]] v n rd by simp
  next
    case (Some check')
    have v: "valid (unit_result g k) = 1" by (simp add: unit_result_def sc Some)
    have "n = 9" "\<forall>j<9. \<not> bad_at (unit_cells g k) j"
      using scan_init_Some [OF sc [unfolded Some]] by (simp_all add: length_unit_cells)
    then show ?thesis
      unfolding run k_def [symmetric] len wr
      using v rd by (simp add: length_unit_positions)
  qed
qed


theorem scan_short_circuit_witness:
  "(4, CheckRow, \<lparr>row = 4, col = 0, sudoku = zero_grid\<rparr>) \<in> set (create_threads zero_grid)
   \<and> reads (run_thread (4, CheckRow, \<lparr>row = 4, col = 0, sudoku = zero_grid\<rparr>)) = [(4, 0)]
   \<and> length (reads (run_thread (4, CheckRow, \<lparr>row = 4, col = 0, sudoku = zero_grid\<rparr>))) \<le> 9
   \<and> reads (run_thread (4, CheckRow, \<lparr>row = 4, col = 0, sudoku = zero_grid\<rparr>)) =
       take (length (reads (run_thread (4, CheckRow, \<lparr>row = 4, col = 0, sudoku = zero_grid\<rparr>))))
         (unit_positions (fst (4::nat, CheckRow, \<lparr>row = 4, col = 0, sudoku = zero_grid\<rparr>)))"
proof -
  have m: "(4, CheckRow, \<lparr>row = 4, col = 0, sudoku = zero_grid\<rparr>) \<in> set (create_threads zero_grid)"
    by (simp add: create_threads_def create_rows_columns_eq upt_0_9)
  have r: "reads (run_thread (4, CheckRow, \<lparr>row = 4, col = 0, sudoku = zero_grid\<rparr>)) = [(4, 0)]"
    by code_simp
  show ?thesis
    using scan_short_circuit [OF m] m r by blast
qed

section \<open>Messages and exit code\<close>

lemma length_fmt_d_1: "n < 10 \<Longrightarrow> length (fmt_d n) = 1"
  by (subst fmt_d.simps) simp

lemma length_fmt_d_2: "10 \<le> n \<Longrightarrow> n < 100 \<Longrightarrow> length (fmt_d n) = 2"
  by (subst fmt_d.simps) (simp add: length_fmt_d_1)

lemma length_fmt_2d: "n < 100 \<Longrightarrow> length (fmt_2d n) = 2"
  using length_fmt_d_1 [of n] length_fmt_d_2 [of n]
  by (cases "n < 10") (simp_all add: fmt_2d_def)

lemma length_unit_kind: "length (unit_kind k) \<le> 7"
  by (simp add: unit_kind_def)

lemma length_sprintf:
  "a < 100 \<Longrightarrow> b < 10 \<Longrightarrow>
   length (sprintf kind verdict a b) = 21 + length kind + length verdict"
  by (simp add: sprintf_def length_fmt_2d length_fmt_d_1)

lemma message_unit_result:
  "message (unit_result g k) =
     sprintf (unit_kind k) (if valid (unit_result g k) = 1 then ''valid'' else ''INVALID'')
       (k + 1) (k mod 9 + 1)"
  by (simp add: unit_result_def)

lemma thread_kind_unit:
  assumes "(index, rt, data) \<in> set (create_threads g)"
  shows "unit_kind index = routine_kind rt \<and> index mod 9 = routine_unit rt data"
  using assms
  by (auto simp: create_threads_def create_rows_columns_eq create_subgrids_eq upt_0_9 upt_0_3
      unit_kind_def routine_kind_def routine_unit_def)

lemma sublist_sprintf:
  "sublist kind (sprintf kind verdict a b)"
  "sublist (fmt_d b) (sprintf kind verdict a b)"
  "sublist (''is '' @ verdict) (sprintf kind verdict a b)"
proof -
  have "sprintf kind verdict a b =
        (''Thread # '' @ fmt_2d a @ '' ('') @ kind @ ('' '' @ fmt_d b @ '') is '' @ verdict @ [CHR 0x0A])"
    by (simp add: sprintf_def)
  then show "sublist kind (sprintf kind verdict a b)"
    by (metis sublist_appendI)
  have "sprintf kind verdict a b =
        (''Thread # '' @ fmt_2d a @ '' ('' @ kind @ '' '') @ fmt_d b @ ('') is '' @ verdict @ [CHR 0x0A])"
    by (simp add: sprintf_def)
  then show "sublist (fmt_d b) (sprintf kind verdict a b)"
    by (metis sublist_appendI)
  have "sprintf kind verdict a b =
        (''Thread # '' @ fmt_2d a @ '' ('' @ kind @ '' '' @ fmt_d b @ '') '') @ (''is '' @ verdict) @ [CHR 0x0A]"
    by (simp add: sprintf_def)
  then show "sublist (''is '' @ verdict) (sprintf kind verdict a b)"
    by (metis sublist_appendI)
qed

text \<open>
  C10. For every grid and every created thread, the message the thread stores is shorter
  than the 100 bytes of the \<^verbatim>\<open>message\<close> buffer (at most 35 characters, so the
  terminating zero fits as well). The message is the format string filled with the kind of
  the unit, the 1-based thread number and the 1-based number of the unit, and the verdict,
  so it contains the kind, the unit number and \<open>is valid\<close> or \<open>is INVALID\<close> according to
  the \<open>valid\<close> field stored with it.
\<close>

theorem message_fits_buffer:
  assumes "(index, rt, data) \<in> set (create_threads g)"
    and "w \<in> set (writes (run_thread (index, rt, data)))"
  shows "length (message (snd w)) < 100
    \<and> length (message (snd w)) \<le> 35
    \<and> message (snd w) =
        ''Thread # '' @ fmt_2d (index + 1) @ '' ('' @ routine_kind rt @ '' ''
          @ fmt_d (routine_unit rt data + 1) @ '') is ''
          @ (if valid (snd w) = 1 then ''valid'' else ''INVALID'') @ [CHR 0x0A]
    \<and> sublist (routine_kind rt) (message (snd w))
    \<and> sublist (fmt_d (routine_unit rt data + 1)) (message (snd w))
    \<and> sublist (if valid (snd w) = 1 then ''is valid'' else ''is INVALID'') (message (snd w))"
proof -
  have th: "index < 27" "run_thread (index, rt, data) = unit_trace g index"
    using thread_in_create_threads [OF assms(1)] by simp_all
  have w: "snd w = unit_result g index"
    using assms(2) by (simp add: th(2) unit_trace_def)
  have ku: "unit_kind index = routine_kind rt" "index mod 9 = routine_unit rt data"
    using thread_kind_unit [OF assms(1)] by simp_all
  define verdict where "verdict = (if valid (snd w) = 1 then ''valid'' else ''INVALID'')"
  have msg: "message (snd w) = sprintf (routine_kind rt) verdict (index + 1) (routine_unit rt data + 1)"
    unfolding w verdict_def using message_unit_result [of g index] by (simp add: ku)
  have b: "routine_unit rt data + 1 < 10"
    using ku(2) [symmetric] by simp
  have "length (routine_kind rt) \<le> 7" "length verdict \<le> 7"
    using length_unit_kind [of index] by (simp_all add: ku verdict_def)
  then have len: "length (message (snd w)) \<le> 35"
    unfolding msg using th(1) b by (simp add: length_sprintf)
  have v: "(if valid (snd w) = 1 then ''is valid'' else ''is INVALID'') = ''is '' @ verdict"
    by (simp add: verdict_def)
  show ?thesis
    unfolding v using len sublist_sprintf [where kind = "routine_kind rt" and verdict = verdict
        and a = "index + 1" and b = "routine_unit rt data + 1"]
    unfolding msg [symmetric] using msg by (simp add: sprintf_def verdict_def)
qed

theorem message_fits_buffer_witness:
  "(22, CheckSubgrid, \<lparr>row = 3, col = 3, sudoku = solved_grid\<rparr>) \<in> set (create_threads solved_grid)
   \<and> (22, \<lparr>valid = 1, message = ''Thread # 23 (subgrid 5) is valid'' @ [CHR 0x0A]\<rparr>)
       \<in> set (writes (run_thread (22, CheckSubgrid, \<lparr>row = 3, col = 3, sudoku = solved_grid\<rparr>)))
   \<and> length (''Thread # 23 (subgrid 5) is valid'' @ [CHR 0x0A]) < 100
   \<and> sublist ''is valid'' (''Thread # 23 (subgrid 5) is valid'' @ [CHR 0x0A])"
proof -
  have m: "(22, CheckSubgrid, \<lparr>row = 3, col = 3, sudoku = solved_grid\<rparr>) \<in> set (create_threads solved_grid)"
    by (simp add: create_threads_def create_subgrids_eq upt_0_3)
  have r: "writes (run_thread (22, CheckSubgrid, \<lparr>row = 3, col = 3, sudoku = solved_grid\<rparr>)) =
           [(22, \<lparr>valid = 1, message = ''Thread # 23 (subgrid 5) is valid'' @ [CHR 0x0A]\<rparr>)]"
    by code_simp
  have w: "(22, \<lparr>valid = 1, message = ''Thread # 23 (subgrid 5) is valid'' @ [CHR 0x0A]\<rparr>)
       \<in> set (writes (run_thread (22, CheckSubgrid, \<lparr>row = 3, col = 3, sudoku = solved_grid\<rparr>)))"
    by (simp add: r)
  show ?thesis
    using message_fits_buffer [OF m w] m w by simp
qed

text \<open>
  C8. \<^verbatim>\<open>main\<close> returns \<^verbatim>\<open>EXIT_SUCCESS\<close> (0) exactly when it was given one argument and
  the file could be opened, whatever the file holds and whatever the verdict on the puzzle
  is, and \<^verbatim>\<open>EXIT_FAILURE\<close> (1) exactly when the argument count is wrong or the file cannot
  be opened.
\<close>

theorem main_exit_code:
  "(exit_code (main fs stack sched argv) = EXIT_SUCCESS \<longleftrightarrow>
      length argv = 2 \<and> fs (argv ! 1) \<noteq> None)
   \<and> (exit_code (main fs stack sched argv) \<noteq> EXIT_SUCCESS \<longleftrightarrow>
      length argv \<noteq> 2 \<or> fs (argv ! 1) = None)
   \<and> (exit_code (main fs stack sched argv) = EXIT_FAILURE \<longleftrightarrow>
      length argv \<noteq> 2 \<or> fs (argv ! 1) = None)"
  by (auto simp: main_def loadSudoku_def split: option.splits prod.splits)

theorem main_exit_code_witness:
  "exit_code (main (\<lambda>f. Some (file_of solved_grid)) zero_grid [0..<27] [''sudoku'', ''puzzle.txt'']) = 0
   \<and> exit_code (main (\<lambda>f. Some (file_of zero_grid)) zero_grid [0..<27] [''sudoku'', ''puzzle.txt'']) = 0
   \<and> exit_code (main (\<lambda>f. None) zero_grid [0..<27] [''sudoku'', ''puzzle.txt'']) = 1
   \<and> exit_code (main (\<lambda>f. Some (file_of solved_grid)) zero_grid [0..<27] [''sudoku'']) = 1"
  using main_exit_code [of "\<lambda>f. Some (file_of solved_grid)" zero_grid "[0..<27]" "[''sudoku'', ''puzzle.txt'']"]
    main_exit_code [of "\<lambda>f. Some (file_of zero_grid)" zero_grid "[0..<27]" "[''sudoku'', ''puzzle.txt'']"]
    main_exit_code [of "\<lambda>f. None" zero_grid "[0..<27]" "[''sudoku'', ''puzzle.txt'']"]
    main_exit_code [of "\<lambda>f. Some (file_of solved_grid)" zero_grid "[0..<27]" "[''sudoku'']"]
  by simp

section \<open>Life cycle of the result slots\<close>

lemma join_threads_write_log:
  "join_threads threads sched tab = foldl store tab (write_log threads sched)"
proof (induction sched arbitrary: tab)
  case Nil
  then show ?case by (simp add: join_threads_def write_log_def)
next
  case (Cons p ps)
  have "join_threads threads (p # ps) tab =
        join_threads threads ps (foldl store tab (writes (run_thread (threads ! p))))"
    by (simp add: join_threads_def)
  moreover have "write_log threads (p # ps) = writes (run_thread (threads ! p)) @ write_log threads ps"
    by (simp add: write_log_def)
  ultimately show ?case using Cons.IH by simp
qed

lemma writes_create_threads_nth:
  "p < 27 \<Longrightarrow>
   writes (run_thread (create_threads g ! p)) = [(thread_slots ! p, unit_result g (thread_slots ! p))]"
  by (simp add: run_thread_nth unit_trace_def)

lemma write_log_create_threads:
  assumes "set sched \<subseteq> {0..<27}"
  shows "write_log (create_threads g) sched =
         map (\<lambda>p. (thread_slots ! p, unit_result g (thread_slots ! p))) sched"
  using assms
  by (induction sched) (simp_all add: write_log_def writes_create_threads_nth)

lemma write_log_slots:
  assumes "schedule sched"
  shows "distinct (map fst (write_log (create_threads g) sched))"
    and "set (map fst (write_log (create_threads g) sched)) = {0..<27}"
proof -
  have sub: "set sched \<subseteq> {0..<27}" and d: "distinct sched" and s: "set sched = {0..<27}"
    using assms by (simp_all add: schedule_def)
  have m: "map fst (write_log (create_threads g) sched) = map (\<lambda>p. thread_slots ! p) sched"
    by (simp add: write_log_create_threads [OF sub] comp_def)
  have inj: "inj_on (\<lambda>p. thread_slots ! p) (set sched)"
    unfolding s using distinct_thread_slots
    by (auto simp: inj_on_def nth_eq_iff_index_eq length_thread_slots)
  show "distinct (map fst (write_log (create_threads g) sched))"
    unfolding m using d inj by (simp add: distinct_map)
  have "(\<lambda>p. thread_slots ! p) ` set sched = set thread_slots"
    unfolding s by (auto simp: set_conv_nth length_thread_slots)
  then show "set (map fst (write_log (create_threads g) sched)) = {0..<27}"
    unfolding m by (simp add: set_thread_slots)
qed

lemma message_unit_result_nonempty: "message (unit_result g k) \<noteq> []"
  by (simp add: unit_result_def sprintf_def)

lemma results_init_nth: "k < 27 \<Longrightarrow> results_init ! k = \<lparr>valid = 0, message = []\<rparr>"
  by (simp add: results_init_def)

lemma main_loaded:
  assumes "length argv = 2" "loadSudoku fs (argv ! 1) stack = Inr g"
  shows "main fs stack sched argv =
     \<lparr>exit_code = EXIT_SUCCESS,
      stdout = fst (printResults (snd (validate sched g))) @
         [if fst (validate sched g) then argv ! 1 @ '' contains a valid solution'' @ [CHR 0x0A]
          else argv ! 1 @ '' contains an INVALID solution'' @ [CHR 0x0A]],
      created = create_threads g,
      results = snd (validate sched g),
      accesses = snd (isValid_loop (snd (validate sched g)) 0 [])
                 @ snd (printResults (snd (validate sched g)))\<rparr>"
  using assms by (simp add: main_def validate_def Let_def)

text \<open>
  C9, as the code has it. Before the threads run, each of the 27 slots holds the zeroed
  value of static storage: \<open>valid = 0\<close> and the empty message. There is no separate
  \<open>unset\<close> value: 0 in \<open>valid\<close> is the INVALID verdict, and an unwritten slot differs from a
  stored outcome only in its message, which is empty, while no thread stores an empty
  message. During the run, whatever the schedule, the stores performed hit every slot 0..26
  exactly once, and the store to a slot is the single store of the thread created at that
  index. After the join \<^verbatim>\<open>main\<close> only reads the table: every access it makes is a load of
  one of the 27 slots, the table it ends with is the table as the joined threads left it,
  and what is printed is read from it.
\<close>

theorem slot_lifecycle:
  assumes "schedule sched"
  shows "length results_init = 27
    \<and> (\<forall>k<27. results_init ! k = \<lparr>valid = 0, message = []\<rparr>)
    \<and> (\<forall>w \<in> set (write_log (create_threads g) sched).
          message (snd w) \<noteq> [] \<and> (\<forall>k<27. snd w \<noteq> results_init ! k))
    \<and> distinct (map fst (write_log (create_threads g) sched))
    \<and> set (map fst (write_log (create_threads g) sched)) = {0..<27}
    \<and> (\<forall>th \<in> set (create_threads g). \<exists>res. writes (run_thread th) = [(fst th, res)])
    \<and> snd (validate sched g) = foldl store results_init (write_log (create_threads g) sched)
    \<and> (\<forall>fs stack argv. length argv = 2 \<and> loadSudoku fs (argv ! 1) stack = Inr g \<longrightarrow>
          results (main fs stack sched argv) =
            foldl store results_init (write_log (create_threads g) sched)
          \<and> (\<forall>a \<in> set (accesses (main fs stack sched argv)). \<exists>k<27. a = Load k)
          \<and> take 27 (stdout (main fs stack sched argv)) =
            fst (printResults (foldl store results_init (write_log (create_threads g) sched))))"
proof -
  have sub: "set sched \<subseteq> {0..<27}" using assms by (simp add: schedule_def)
  have msgs: "message (snd w) \<noteq> [] \<and> (\<forall>k<27. snd w \<noteq> results_init ! k)"
    if "w \<in> set (write_log (create_threads g) sched)" for w
  proof -
    have "w \<in> set (map (\<lambda>p. (thread_slots ! p, unit_result g (thread_slots ! p))) sched)"
      using that by (simp only: write_log_create_threads [OF sub])
    then obtain k where "snd w = unit_result g k"
      by auto
    then have ne: "message (snd w) \<noteq> []" by (simp add: message_unit_result_nonempty)
    then have "snd w \<noteq> results_init ! k" if "k < 27" for k
      using results_init_nth [OF that] by auto
    with ne show ?thesis by simp
  qed
  have own: "\<exists>res. writes (run_thread th) = [(fst th, res)]"
    if "th \<in> set (create_threads g)" for th
    using thread_in_create_threads [OF that] by (simp add: unit_trace_def)
  have tab: "snd (validate sched g) = foldl store results_init (write_log (create_threads g) sched)"
    by (simp add: validate_def Let_def join_threads_write_log)
  have fin: "results (main fs stack sched argv) =
            foldl store results_init (write_log (create_threads g) sched)
          \<and> (\<forall>a \<in> set (accesses (main fs stack sched argv)). \<exists>k<27. a = Load k)
          \<and> take 27 (stdout (main fs stack sched argv)) =
            fst (printResults (foldl store results_init (write_log (create_threads g) sched)))"
    if "length argv = 2 \<and> loadSudoku fs (argv ! 1) stack = Inr g" for fs stack argv
  proof -
    have m: "main fs stack sched argv =
     \<lparr>exit_code = EXIT_SUCCESS,
      stdout = fst (printResults (snd (validate sched g))) @
         [if fst (validate sched g) then argv ! 1 @ '' contains a valid solution'' @ [CHR 0x0A]
          else argv ! 1 @ '' contains an INVALID solution'' @ [CHR 0x0A]],
      created = create_threads g,
      results = snd (validate sched g),
      accesses = snd (isValid_loop (snd (validate sched g)) 0 [])
                 @ snd (printResults (snd (validate sched g)))\<rparr>"
      using that by (intro main_loaded) simp_all
    have len: "length (fst (printResults (snd (validate sched g)))) = 27"
      by (simp add: printResults_def del: upt_Suc)
    have acc: "\<exists>k<27. a = Load k" if "a \<in> set (accesses (main fs stack sched argv))" for a
      using that isValid_loop_accesses [of a "snd (validate sched g)" 0 "[]"]
        printResults_accesses [of a "snd (validate sched g)"]
      unfolding m by auto
    show ?thesis
      using len acc unfolding m by (simp add: tab [symmetric])
  qed
  show ?thesis
    using msgs own tab fin write_log_slots [OF assms, of g] results_init_nth
    by (simp add: results_init_def)
qed

theorem slot_lifecycle_witness:
  "schedule (rev [0..<27])
   \<and> length results_init = 27
   \<and> results_init ! 26 = \<lparr>valid = 0, message = []\<rparr>
   \<and> distinct (map fst (write_log (create_threads solved_grid) (rev [0..<27])))
   \<and> set (map fst (write_log (create_threads solved_grid) (rev [0..<27]))) = {0..<27}
   \<and> snd (validate (rev [0..<27]) solved_grid) =
       foldl store results_init (write_log (create_threads solved_grid) (rev [0..<27]))"
proof -
  note t = slot_lifecycle [OF schedule_rev, of solved_grid]
  from t have "\<forall>k<27. results_init ! k = \<lparr>valid = 0, message = []\<rparr>" by blast
  then have "results_init ! 26 = \<lparr>valid = 0, message = []\<rparr>" by simp
  then show ?thesis using t schedule_rev by blast
qed

text \<open>
  The claim as written fails. The \<open>valid\<close> field of an unwritten slot is 0, which is the
  very verdict the thread of row 5 stores for a grid of zeros; and the reduction loop,
  which tests nothing but that field, takes a table no thread has written for an invalid
  puzzle.
\<close>

theorem unwritten_slot_reads_invalid:
  "valid (results_init ! 4) = 0
   \<and> writes (run_thread (4, CheckRow, \<lparr>row = 4, col = 0, sudoku = zero_grid\<rparr>)) =
       [(4, \<lparr>valid = 0, message = ''Thread #  5 (row 5) is INVALID'' @ [CHR 0x0A]\<rparr>)]
   \<and> valid (results_init ! 4) =
       valid (snd (hd (writes (run_thread (4, CheckRow, \<lparr>row = 4, col = 0, sudoku = zero_grid\<rparr>)))))
   \<and> \<not> fst (isValid_loop results_init 0 [])"
proof -
  have i: "valid (results_init ! 4) = 0" by (simp add: results_init_def)
  have w: "writes (run_thread (4, CheckRow, \<lparr>row = 4, col = 0, sudoku = zero_grid\<rparr>)) =
       [(4, \<lparr>valid = 0, message = ''Thread #  5 (row 5) is INVALID'' @ [CHR 0x0A]\<rparr>)]"
    by code_simp
  have l: "\<not> fst (isValid_loop results_init 0 [])"
    unfolding isValid_loop_iff using i by (intro notI) force
  show ?thesis using i l by (simp add: w)
qed

section \<open>Loading\<close>

lemma wf_grid_nth: "wf_grid g \<longleftrightarrow> length g = 9 \<and> (\<forall>i<9. length (g ! i) = 9)"
  by (auto simp: wf_grid_def all_set_conv_all_nth)

lemma call_0: "call fl 0 = fst (fscanf_d fl)"
  by (cases fl) (simp_all add: call_def fscanf_d_def)

lemma call_Suc: "call fl (Suc n) = call (snd (fscanf_d fl)) n"
  by (cases fl) (simp_all add: call_def fscanf_d_def)

lemma drop_Suc_fscanf: "drop (Suc n) fl = drop n (snd (fscanf_d fl))"
  by (cases fl) (simp_all add: fscanf_d_def)

lemma call_drop: "call (drop m fl) n = call fl (m + n)"
  by (auto simp: call_def)

lemma loadSudoku_cols_eq:
  assumes "wf_grid g" "i < 9" "j \<le> 9"
  shows "loadSudoku_cols fl g i j =
     (drop (9 - j) fl,
      g[i := map (\<lambda>b. if j \<le> b then (case call fl (b - j) of Some x \<Rightarrow> x | None \<Rightarrow> g ! i ! b)
                       else g ! i ! b) [0..<9]])"
  using assms
proof (induction fl g i j rule: loadSudoku_cols.induct)
  case (1 fl g i j)
  have leni: "length (g ! i) = 9" and leng: "length g = 9"
    using "1.prems" by (auto simp: wf_grid_nth)
  show ?case
  proof (cases "j < 9")
    case False
    then have j: "j = 9" using "1.prems" by simp
    have "map (\<lambda>b. if j \<le> b then (case call fl (b - j) of Some x \<Rightarrow> x | None \<Rightarrow> g ! i ! b)
                       else g ! i ! b) [0..<9] = g ! i"
      unfolding j by (rule nth_equalityI) (simp_all add: leni del: upt_Suc)
    then show ?thesis
      using j by (subst loadSudoku_cols.simps) simp
  next
    case True
    obtain out fl' where fs: "(out, fl') = fscanf_d fl" by (cases "fscanf_d fl") simp
    have out: "call fl 0 = out" and fl': "snd (fscanf_d fl) = fl'"
      using fs by (simp_all add: call_0 flip: fs)
    define g' where "g' = (case out of None \<Rightarrow> g | Some x \<Rightarrow> g[i := (g ! i)[j := x]])"
    have wf': "wf_grid g'"
    proof (cases out)
      case None
      then show ?thesis using "1.prems"(1) by (simp add: g'_def)
    next
      case (Some x)
      have "length (g' ! a) = 9" if "a < 9" for a
        using that "1.prems"(1) leni
        by (cases "a = i") (simp_all add: g'_def Some wf_grid_nth)
      then show ?thesis using leng by (simp add: wf_grid_nth g'_def Some)
    qed
    have step: "loadSudoku_cols fl g i j = loadSudoku_cols fl' g' i (j + 1)"
      using True fs [symmetric]
      by (subst loadSudoku_cols.simps) (simp add: g'_def split: option.splits)
    have j1: "j + 1 \<le> 9" using True by simp
    have ih: "loadSudoku_cols fl' g' i (j + 1) =
        (drop (9 - (j + 1)) fl',
         g'[i := map (\<lambda>b. if j + 1 \<le> b
                           then (case call fl' (b - (j + 1)) of Some x \<Rightarrow> x | None \<Rightarrow> g' ! i ! b)
                           else g' ! i ! b) [0..<9]])"
    proof (cases out)
      case None
      have e: "g' = g" by (simp add: g'_def None)
      from "1.IH"(1) [OF True fs None "1.prems"(1,2) j1]
      show ?thesis unfolding e .
    next
      case (Some x)
      have e: "g' = g[i := (g ! i)[j := x]]" by (simp add: g'_def Some)
      from "1.IH"(2) [OF True fs Some wf' [unfolded e] "1.prems"(2) j1]
      show ?thesis unfolding e .
    qed
    have d: "drop (9 - j) fl = drop (9 - (j + 1)) fl'"
    proof -
      have "9 - j = Suc (9 - (j + 1))" using True by simp
      then show ?thesis by (simp only: drop_Suc_fscanf fl')
    qed
    have gi: "g' ! i = (case out of None \<Rightarrow> g ! i | Some x \<Rightarrow> (g ! i)[j := x])"
      using "1.prems"(2) leng by (simp add: g'_def split: option.splits)
    have upd: "g'[i := row'] = g[i := row']" for row'
      by (simp add: g'_def split: option.splits)
    have row_eq: "map (\<lambda>b. if j + 1 \<le> b
                           then (case call fl' (b - (j + 1)) of Some x \<Rightarrow> x | None \<Rightarrow> g' ! i ! b)
                           else g' ! i ! b) [0..<9] =
                  map (\<lambda>b. if j \<le> b then (case call fl (b - j) of Some x \<Rightarrow> x | None \<Rightarrow> g ! i ! b)
                       else g ! i ! b) [0..<9]"
    proof (rule map_cong [OF refl])
      fix b assume "b \<in> set [0..<9]"
      then have b: "b < 9" by simp
      consider "b < j" | "b = j" | "j < b" by arith
      then show "(if j + 1 \<le> b
                           then (case call fl' (b - (j + 1)) of Some x \<Rightarrow> x | None \<Rightarrow> g' ! i ! b)
                           else g' ! i ! b) =
                 (if j \<le> b then (case call fl (b - j) of Some x \<Rightarrow> x | None \<Rightarrow> g ! i ! b)
                       else g ! i ! b)"
      proof cases
        case 1
        then show ?thesis by (simp add: gi split: option.splits)
      next
        case 2
        then show ?thesis using True leni out by (simp add: gi split: option.splits)
      next
        case 3
        then have bj: "b - j = Suc (b - (j + 1))" by simp
        have c: "call fl (b - j) = call fl' (b - (j + 1))"
          unfolding bj call_Suc fl' ..
        have "g' ! i ! b = g ! i ! b" using 3 by (simp add: gi split: option.splits)
        then show ?thesis using 3 by (simp add: c split: option.splits)
      qed
    qed
    show ?thesis
      unfolding step ih d row_eq upd ..
  qed
qed


lemma loadSudoku_rows_eq:
  assumes "wf_grid g" "i \<le> 9"
  shows "loadSudoku_rows fl g i =
     map (\<lambda>a. if a < i then g ! a
              else map (\<lambda>b. case call fl (9 * (a - i) + b) of Some x \<Rightarrow> x | None \<Rightarrow> g ! a ! b)
                     [0..<9]) [0..<9]"
  using assms
proof (induction fl g i rule: loadSudoku_rows.induct)
  case (1 fl g i)
  have leng: "length g = 9" using "1.prems"(1) by (simp add: wf_grid_nth)
  show ?case
  proof (cases "i < 9")
    case False
    then have i: "i = 9" using "1.prems"(2) by simp
    have "map (\<lambda>a. if a < i then g ! a
              else map (\<lambda>b. case call fl (9 * (a - i) + b) of Some x \<Rightarrow> x | None \<Rightarrow> g ! a ! b)
                     [0..<9]) [0..<9] = g"
      unfolding i by (rule nth_equalityI) (simp_all add: leng del: upt_Suc)
    then show ?thesis using i by (subst loadSudoku_rows.simps) simp
  next
    case True
    define g1 where
      "g1 = g[i := map (\<lambda>b. case call fl b of Some x \<Rightarrow> x | None \<Rightarrow> g ! i ! b) [0..<9]]"
    have "loadSudoku_cols fl g i 0 =
          (drop 9 fl,
           g[i := map (\<lambda>b. if 0 \<le> b then (case call fl (b - 0) of Some x \<Rightarrow> x | None \<Rightarrow> g ! i ! b)
                       else g ! i ! b) [0..<9]])"
      using loadSudoku_cols_eq [OF "1.prems"(1) True, of 0 fl] by simp
    then have cols: "loadSudoku_cols fl g i 0 = (drop 9 fl, g1)"
      unfolding g1_def by (simp cong: if_cong)
    have wf1: "wf_grid g1"
    proof -
      have "length g1 = 9" by (simp add: g1_def leng)
      moreover have "length (g1 ! a) = 9" if "a < 9" for a
        using that "1.prems"(1)
        by (cases "a = i") (simp_all add: g1_def leng wf_grid_nth del: upt_Suc)
      ultimately show ?thesis by (simp add: wf_grid_nth)
    qed
    have step: "loadSudoku_rows fl g i = loadSudoku_rows (drop 9 fl) g1 (i + 1)"
      using True by (subst loadSudoku_rows.simps) (simp add: cols)
    have ih: "loadSudoku_rows (drop 9 fl) g1 (i + 1) =
       map (\<lambda>a. if a < i + 1 then g1 ! a
              else map (\<lambda>b. case call (drop 9 fl) (9 * (a - (i + 1)) + b) of
                               Some x \<Rightarrow> x | None \<Rightarrow> g1 ! a ! b) [0..<9]) [0..<9]"
    proof -
      have "i + 1 \<le> 9" using True by simp
      from "1.IH" [OF True cols [symmetric] wf1 this] show ?thesis .
    qed
    have "map (\<lambda>a. if a < i + 1 then g1 ! a
              else map (\<lambda>b. case call (drop 9 fl) (9 * (a - (i + 1)) + b) of
                               Some x \<Rightarrow> x | None \<Rightarrow> g1 ! a ! b) [0..<9]) [0..<9] =
          map (\<lambda>a. if a < i then g ! a
              else map (\<lambda>b. case call fl (9 * (a - i) + b) of Some x \<Rightarrow> x | None \<Rightarrow> g ! a ! b)
                     [0..<9]) [0..<9]"
    proof (rule map_cong [OF refl])
      fix a assume "a \<in> set [0..<9]"
      then have a: "a < 9" by simp
      consider "a < i" | "a = i" | "i < a" by arith
      then show "(if a < i + 1 then g1 ! a
              else map (\<lambda>b. case call (drop 9 fl) (9 * (a - (i + 1)) + b) of
                               Some x \<Rightarrow> x | None \<Rightarrow> g1 ! a ! b) [0..<9]) =
            (if a < i then g ! a
              else map (\<lambda>b. case call fl (9 * (a - i) + b) of Some x \<Rightarrow> x | None \<Rightarrow> g ! a ! b)
                     [0..<9])"
      proof cases
        case 1
        then show ?thesis by (simp add: g1_def)
      next
        case 2
        then show ?thesis using True leng by (simp add: g1_def split: option.splits)
      next
        case 3
        have g1a: "g1 ! a = g ! a" using 3 by (simp add: g1_def)
        have idx: "9 + (9 * (a - (i + 1)) + b) = 9 * (a - i) + b" for b
          using 3 by arith
        have "call (drop 9 fl) (9 * (a - (i + 1)) + b) = call fl (9 * (a - i) + b)" for b
          unfolding call_drop idx ..
        then show ?thesis using 3 by (simp add: g1a split: option.splits)
      qed
    qed
    then show ?thesis unfolding step ih .
  qed
qed

lemma loadSudoku_rows_loaded: "wf_grid g \<Longrightarrow> loadSudoku_rows fl g 0 = loaded fl g"
  by (simp add: loadSudoku_rows_eq loaded_def)

lemma loadSudoku_eq:
  "wf_grid g \<Longrightarrow>
   loadSudoku fs filename g =
     (case fs filename of None \<Rightarrow> Inl 1 | Some fl \<Rightarrow> Inr (loaded fl g))"
  by (simp add: loadSudoku_def loadSudoku_rows_loaded split: option.splits)


section \<open>Out-of-range cells\<close>

lemma in_block:
  "(r, c) \<in> set (concat (map (\<lambda>i. map (\<lambda>j. (i, j)) [c0..<c1]) [r0..<r1]))
     \<longleftrightarrow> r0 \<le> r \<and> r < r1 \<and> c0 \<le> c \<and> c < c1"
  by (simp add: image_iff del: upt_Suc)

lemma units_of_iff:
  assumes "r < 9" "c < 9" "k < 27"
  shows "(r, c) \<in> set (unit_positions k) \<longleftrightarrow> k \<in> units_of r c"
proof -
  consider "k < 9" | "9 \<le> k" "k < 18" | "18 \<le> k" by arith
  then show ?thesis
  proof cases
    case 1
    then show ?thesis using assms by (auto simp: unit_positions_def units_of_def simp del: upt_Suc)
  next
    case 2
    then show ?thesis using assms by (auto simp: unit_positions_def units_of_def simp del: upt_Suc)
  next
    case 3
    define q where "q = (k - 18) div 3"
    define m where "m = (k - 18) mod 3"
    define a where "a = r div 3"
    define b where "b = c div 3"
    have k: "k = 18 + 3 * q + m" "m < 3"
      using 3 by (simp_all add: q_def m_def)
    have ra: "3 * a \<le> r" "r < 3 * a + 3" and cb: "3 * b \<le> c" "c < 3 * b + 3"
      by (simp_all add: a_def b_def)
    have pos: "unit_positions k =
        concat (map (\<lambda>i. map (\<lambda>j. (i, j)) [3 * m..<3 * m + 3]) [3 * q..<3 * q + 3])"
      using 3 by (simp add: unit_positions_def q_def m_def)
    have "(r, c) \<in> set (unit_positions k) \<longleftrightarrow>
          3 * q \<le> r \<and> r < 3 * q + 3 \<and> 3 * m \<le> c \<and> c < 3 * m + 3"
      unfolding pos by (rule in_block)
    also have "\<dots> \<longleftrightarrow> q = a \<and> m = b"
      using ra cb by linarith
    also have "\<dots> \<longleftrightarrow> k = 18 + 3 * a + b"
    proof -
      have b3: "b < 3" using cb(1) assms(2) by linarith
      have dq: "(3 * q + m) div 3 = q" and da: "(3 * a + b) div 3 = a"
        using k(2) b3 by simp_all
      show ?thesis
      proof
        assume "q = a \<and> m = b"
        then show "k = 18 + 3 * a + b" using k(1) by simp
      next
        assume "k = 18 + 3 * a + b"
        then have e: "3 * q + m = 3 * a + b" using k(1) by simp
        then have "q = a" using dq da by simp
        then show "q = a \<and> m = b" using e by simp
      qed
    qed
    also have "\<dots> \<longleftrightarrow> k \<in> units_of r c"
    proof -
      have "k \<noteq> r" "k \<noteq> 9 + c" using 3 assms by linarith+
      then show ?thesis by (simp add: units_of_def a_def b_def)
    qed
    finally show ?thesis .
  qed
qed


lemma units_of_less:
  assumes "r < 9" "c < 9" "k \<in> units_of r c"
  shows "k < 27"
proof -
  have "r div 3 < 3" "c div 3 < 3"
    using assms(1,2) by (simp_all add: less_mult_imp_div_less)
  then show ?thesis using assms by (auto simp: units_of_def)
qed

lemma wf_zero_grid: "wf_grid zero_grid"
  by (simp add: wf_grid_def zero_grid_def)

lemma wf_nine_grid: "wf_grid nine_grid"
  by (simp add: wf_grid_def nine_grid_def)

lemma unit_positions_cell:
  "(r, c) \<in> set (unit_positions k) \<Longrightarrow> g ! r ! c \<in> set (unit_cells g k)"
  by (force simp: unit_cells_def)

lemma unit_result_invalid:
  assumes "\<not> unit_ok g k"
  shows "unit_result g k =
         \<lparr>valid = 0, message = sprintf (unit_kind k) ''INVALID'' (k + 1) (k mod 9 + 1)\<rparr>"
proof -
  have "valid (unit_result g k) = 0" using assms by (simp add: unit_result_valid)
  then show ?thesis by (auto simp: unit_result_def split: if_splits)
qed

lemma thread_of_slot:
  assumes "k < 27"
  shows "\<exists>th \<in> set (create_threads g). fst th = k \<and> writes (run_thread th) = [(k, unit_result g k)]"
proof -
  have "k \<in> set (map fst (create_threads g))"
    using assms by (simp add: map_fst_create_threads set_thread_slots)
  then obtain th where th: "th \<in> set (create_threads g)" "fst th = k" by auto
  then have "writes (run_thread th) = [(k, unit_result g k)]"
    using thread_in_create_threads [OF th(1)] by (simp add: unit_trace_def)
  with th show ?thesis by blast
qed

text \<open>
  C3. If a cell of the loaded grid holds a value outside 1..9, then in every run (every
  schedule) each unit whose nine cells include that cell produces an INVALID outcome: one
  of the created threads stores, to the unit's slot, \<open>valid = 0\<close> together with the unit's
  \<open>is INVALID\<close> message, and that is what the slot holds at the end, which is not what it
  held before the run. For a cell \<open>(r, c)\<close> of the grid these units are its row, its column
  and its block. Nothing is raised: all 27 threads are created, all 27 outcomes are
  produced and \<^verbatim>\<open>main\<close> returns \<^verbatim>\<open>EXIT_SUCCESS\<close>.
\<close>

theorem out_of_range_is_invalid:
  assumes "schedule sched" "length argv = 2" "loadSudoku fs (argv ! 1) stack = Inr g"
    and "g ! r ! c < 1 \<or> 9 < g ! r ! c"
  shows "(\<forall>k<27. (r, c) \<in> set (unit_positions k) \<longrightarrow>
            valid (results (main fs stack sched argv) ! k) = 0
            \<and> results (main fs stack sched argv) ! k =
                \<lparr>valid = 0, message = sprintf (unit_kind k) ''INVALID'' (k + 1) (k mod 9 + 1)\<rparr>
            \<and> results (main fs stack sched argv) ! k \<noteq> results_init ! k
            \<and> sublist ''is INVALID'' (message (results (main fs stack sched argv) ! k))
            \<and> (\<exists>th \<in> set (created (main fs stack sched argv)). fst th = k
                  \<and> writes (run_thread th) =
                      [(k, \<lparr>valid = 0,
                            message = sprintf (unit_kind k) ''INVALID'' (k + 1) (k mod 9 + 1)\<rparr>)]))
    \<and> (r < 9 \<and> c < 9 \<longrightarrow>
          valid (results (main fs stack sched argv) ! r) = 0
          \<and> valid (results (main fs stack sched argv) ! (9 + c)) = 0
          \<and> valid (results (main fs stack sched argv) ! (18 + 3 * (r div 3) + c div 3)) = 0
          \<and> results (main fs stack sched argv) ! r \<noteq> results_init ! r
          \<and> results (main fs stack sched argv) ! (9 + c) \<noteq> results_init ! (9 + c)
          \<and> results (main fs stack sched argv) ! (18 + 3 * (r div 3) + c div 3)
              \<noteq> results_init ! (18 + 3 * (r div 3) + c div 3))
    \<and> length (results (main fs stack sched argv)) = 27
    \<and> length (created (main fs stack sched argv)) = 27
    \<and> exit_code (main fs stack sched argv) = EXIT_SUCCESS"
proof -
  have m: "results (main fs stack sched argv) = snd (validate sched g)"
    "created (main fs stack sched argv) = create_threads g"
    "exit_code (main fs stack sched argv) = EXIT_SUCCESS"
    by (simp_all add: main_loaded [OF assms(2,3)])
  have inv: "snd (validate sched g) ! k =
                \<lparr>valid = 0, message = sprintf (unit_kind k) ''INVALID'' (k + 1) (k mod 9 + 1)\<rparr>"
    if "k < 27" "(r, c) \<in> set (unit_positions k)" for k
  proof -
    have "g ! r ! c \<in> set (unit_cells g k)" using that(2) by (rule unit_positions_cell)
    then have "\<not> unit_ok g k" using assms(4) unfolding unit_ok_def by force
    then show ?thesis
      using validate_nth [OF assms(1) that(1), of g] by (simp add: unit_result_invalid)
  qed
  have ne: "snd (validate sched g) ! k \<noteq> results_init ! k"
    if "k < 27" "(r, c) \<in> set (unit_positions k)" for k
  proof -
    have "message (snd (validate sched g) ! k) \<noteq> []"
      unfolding inv [OF that] by (simp add: sprintf_def)
    then show ?thesis using results_init_nth [OF that(1)] by auto
  qed
  have sub: "sublist ''is INVALID'' (message (snd (validate sched g) ! k))"
    if "k < 27" "(r, c) \<in> set (unit_positions k)" for k
    unfolding inv [OF that]
    using sublist_sprintf(3) [of "''INVALID''" "unit_kind k" "k + 1" "k mod 9 + 1"] by simp
  have thr: "\<exists>th \<in> set (create_threads g). fst th = k
                  \<and> writes (run_thread th) =
                      [(k, \<lparr>valid = 0,
                            message = sprintf (unit_kind k) ''INVALID'' (k + 1) (k mod 9 + 1)\<rparr>)]"
    if "k < 27" "(r, c) \<in> set (unit_positions k)" for k
    using thread_of_slot [OF that(1), of g] validate_nth [OF assms(1) that(1), of g]
    unfolding inv [OF that] by simp
  have units: "k < 27 \<and> (r, c) \<in> set (unit_positions k)"
    if "r < 9" "c < 9" "k \<in> units_of r c" for k
    using units_of_less [OF that] units_of_iff [OF that(1,2), of k] that(3) by simp
  have three: "valid (snd (validate sched g) ! k) = 0
               \<and> snd (validate sched g) ! k \<noteq> results_init ! k"
    if "r < 9" "c < 9" "k \<in> units_of r c" for k
    using units [OF that] inv [of k] ne [of k] by simp
  have len: "length (snd (validate sched g)) = 27"
    by (simp add: validate_table [OF assms(1)] del: upt_Suc)
  have all: "\<forall>k<27. (r, c) \<in> set (unit_positions k) \<longrightarrow>
            valid (snd (validate sched g) ! k) = 0
            \<and> snd (validate sched g) ! k =
                \<lparr>valid = 0, message = sprintf (unit_kind k) ''INVALID'' (k + 1) (k mod 9 + 1)\<rparr>
            \<and> snd (validate sched g) ! k \<noteq> results_init ! k
            \<and> sublist ''is INVALID'' (message (snd (validate sched g) ! k))
            \<and> (\<exists>th \<in> set (create_threads g). fst th = k
                  \<and> writes (run_thread th) =
                      [(k, \<lparr>valid = 0,
                            message = sprintf (unit_kind k) ''INVALID'' (k + 1) (k mod 9 + 1)\<rparr>)])"
    using inv ne sub thr by simp
  have cellunits: "r < 9 \<and> c < 9 \<longrightarrow>
          valid (snd (validate sched g) ! r) = 0
          \<and> valid (snd (validate sched g) ! (9 + c)) = 0
          \<and> valid (snd (validate sched g) ! (18 + 3 * (r div 3) + c div 3)) = 0
          \<and> snd (validate sched g) ! r \<noteq> results_init ! r
          \<and> snd (validate sched g) ! (9 + c) \<noteq> results_init ! (9 + c)
          \<and> snd (validate sched g) ! (18 + 3 * (r div 3) + c div 3)
              \<noteq> results_init ! (18 + 3 * (r div 3) + c div 3)"
    using three [of r] three [of "9 + c"] three [of "18 + 3 * (r div 3) + c div 3"]
    by (simp add: units_of_def)
  show ?thesis
    unfolding m by (intro conjI all cellunits len) (simp_all add: length_create_threads)
qed

theorem out_of_range_is_invalid_witness:
  "schedule [0..<27]
   \<and> loadSudoku (\<lambda>f. Some (file_of (set_cell solved_grid 4 4 0))) ''puzzle.txt'' zero_grid
       = Inr (set_cell solved_grid 4 4 0)
   \<and> set_cell solved_grid 4 4 0 ! 4 ! 4 = 0
   \<and> valid (results (main (\<lambda>f. Some (file_of (set_cell solved_grid 4 4 0))) zero_grid [0..<27]
               [''sudoku'', ''puzzle.txt'']) ! 4) = 0
   \<and> valid (results (main (\<lambda>f. Some (file_of (set_cell solved_grid 4 4 0))) zero_grid [0..<27]
               [''sudoku'', ''puzzle.txt'']) ! 13) = 0
   \<and> results (main (\<lambda>f. Some (file_of (set_cell solved_grid 4 4 0))) zero_grid [0..<27]
               [''sudoku'', ''puzzle.txt'']) ! 22
       = \<lparr>valid = 0, message = ''Thread # 23 (subgrid 5) is INVALID'' @ [CHR 0x0A]\<rparr>
   \<and> exit_code (main (\<lambda>f. Some (file_of (set_cell solved_grid 4 4 0))) zero_grid [0..<27]
               [''sudoku'', ''puzzle.txt'']) = 0"
proof -
  define g where "g = set_cell solved_grid 4 4 0"
  have cell: "g ! 4 ! 4 = 0"
    unfolding g_def by code_simp
  have "loaded (file_of g) zero_grid = g"
    unfolding g_def by code_simp
  then have ld0: "loadSudoku (\<lambda>f. Some (file_of g)) ''puzzle.txt'' zero_grid = Inr g"
    by (simp add: loadSudoku_eq [OF wf_zero_grid])
  then have ld: "loadSudoku (\<lambda>f. Some (file_of g)) ([''sudoku'', ''puzzle.txt''] ! 1) zero_grid = Inr g"
    by simp
  have len: "length [''sudoku'', ''puzzle.txt''] = 2" by simp
  have bad: "g ! 4 ! 4 < 1 \<or> 9 < g ! 4 ! 4"
    by (simp add: cell)
  have msg: "sprintf (unit_kind 22) ''INVALID'' (22 + 1) (22 mod 9 + 1) =
             ''Thread # 23 (subgrid 5) is INVALID'' @ [CHR 0x0A]"
    by code_simp
  have pos: "(4, 4) \<in> set (unit_positions 22)"
    using units_of_iff [of 4 4 22] by (simp add: units_of_def)
  note t = out_of_range_is_invalid [OF schedule_upt len ld bad]
  from t have a: "\<forall>k<27. (4, 4) \<in> set (unit_positions k) \<longrightarrow>
      results (main (\<lambda>f. Some (file_of g)) zero_grid [0..<27] [''sudoku'', ''puzzle.txt'']) ! k =
        \<lparr>valid = 0, message = sprintf (unit_kind k) ''INVALID'' (k + 1) (k mod 9 + 1)\<rparr>"
    by blast
  have r22: "results (main (\<lambda>f. Some (file_of g)) zero_grid [0..<27] [''sudoku'', ''puzzle.txt'']) ! 22
       = \<lparr>valid = 0, message = ''Thread # 23 (subgrid 5) is INVALID'' @ [CHR 0x0A]\<rparr>"
    using a [rule_format, of 22] pos msg by simp
  show ?thesis
    using t schedule_upt cell ld0 r22 unfolding g_def by simp
qed

section \<open>Malformed input\<close>

lemma failed_call_stores_nothing:
  "loadSudoku (\<lambda>f. Some (Some 5 # Some 3 # None # stream_of (drop 3 (concat solved_grid))))
     ''puzzle.txt'' zero_grid = Inr (set_cell solved_grid 0 2 0)"
proof -
  have "loaded (Some 5 # Some 3 # None # stream_of (drop 3 (concat solved_grid))) zero_grid
        = set_cell solved_grid 0 2 0"
    by code_simp
  then show ?thesis by (simp add: loadSudoku_eq [OF wf_zero_grid])
qed

text \<open>
  C7. The source never rejects a file it could open. The header of \<^verbatim>\<open>loadSudoku\<close> promises
  that it exits on a file read error, but the value \<^verbatim>\<open>fscanf\<close> returns is dropped, so a
  file that ends after 80 integers is loaded all the same: cell \<open>(8, 8)\<close> keeps whatever
  \<^verbatim>\<open>main\<close>'s uninitialised array held, the 27 threads are created, 27 outcomes are
  produced and \<^verbatim>\<open>main\<close> returns \<^verbatim>\<open>EXIT_SUCCESS\<close>. With the first 80 integers of the solved
  puzzle the verdict depends on that leftover value: over an array of zeros row 9 and the
  puzzle are reported INVALID, over an array of nines the puzzle is reported valid.
\<close>

theorem malformed_grid_is_validated:
  "length (stream_of (take 80 (concat solved_grid))) = 80
   \<and> loadSudoku (\<lambda>f. Some (stream_of (take 80 (concat solved_grid)))) ''puzzle.txt'' zero_grid
       = Inr (set_cell solved_grid 8 8 0)
   \<and> loadSudoku (\<lambda>f. Some (stream_of (take 80 (concat solved_grid)))) ''puzzle.txt'' nine_grid
       = Inr solved_grid
   \<and> exit_code (main (\<lambda>f. Some (stream_of (take 80 (concat solved_grid)))) zero_grid [0..<27]
        [''sudoku'', ''puzzle.txt'']) = EXIT_SUCCESS
   \<and> length (created (main (\<lambda>f. Some (stream_of (take 80 (concat solved_grid)))) zero_grid [0..<27]
        [''sudoku'', ''puzzle.txt''])) = 27
   \<and> length (results (main (\<lambda>f. Some (stream_of (take 80 (concat solved_grid)))) zero_grid [0..<27]
        [''sudoku'', ''puzzle.txt''])) = 27
   \<and> valid (results (main (\<lambda>f. Some (stream_of (take 80 (concat solved_grid)))) zero_grid [0..<27]
        [''sudoku'', ''puzzle.txt'']) ! 8) = 0
   \<and> last (stdout (main (\<lambda>f. Some (stream_of (take 80 (concat solved_grid)))) zero_grid [0..<27]
        [''sudoku'', ''puzzle.txt''])) = ''puzzle.txt contains an INVALID solution'' @ [CHR 0x0A]
   \<and> exit_code (main (\<lambda>f. Some (stream_of (take 80 (concat solved_grid)))) nine_grid [0..<27]
        [''sudoku'', ''puzzle.txt'']) = EXIT_SUCCESS
   \<and> valid (results (main (\<lambda>f. Some (stream_of (take 80 (concat solved_grid)))) nine_grid [0..<27]
        [''sudoku'', ''puzzle.txt'']) ! 8) = 1
   \<and> last (stdout (main (\<lambda>f. Some (stream_of (take 80 (concat solved_grid)))) nine_grid [0..<27]
        [''sudoku'', ''puzzle.txt''])) = ''puzzle.txt contains a valid solution'' @ [CHR 0x0A]"
proof -
  define fl where "fl = stream_of (take 80 (concat solved_grid))"
  define g0 where "g0 = set_cell solved_grid 8 8 0"
  have len: "length fl = 80" unfolding fl_def by code_simp
  have "loaded fl zero_grid = g0"
    unfolding fl_def g0_def by code_simp
  then have ld0: "loadSudoku (\<lambda>f. Some fl) ''puzzle.txt'' zero_grid = Inr g0"
    by (simp add: loadSudoku_eq [OF wf_zero_grid])
  have "loaded fl nine_grid = solved_grid"
    unfolding fl_def by code_simp
  then have ld9: "loadSudoku (\<lambda>f. Some fl) ''puzzle.txt'' nine_grid = Inr solved_grid"
    by (simp add: loadSudoku_eq [OF wf_nine_grid])
  have argv: "length [''sudoku'', ''puzzle.txt''] = 2"
    "[''sudoku'', ''puzzle.txt''] ! 1 = ''puzzle.txt''" by simp_all
  note m0 = main_loaded [of "[''sudoku'', ''puzzle.txt'']" "\<lambda>f. Some fl" zero_grid g0 "[0..<27]",
      unfolded argv, OF refl ld0]
  note m9 = main_loaded [of "[''sudoku'', ''puzzle.txt'']" "\<lambda>f. Some fl" nine_grid solved_grid
      "[0..<27]", unfolded argv, OF refl ld9]
  have bad8: "\<not> unit_ok g0 8" unfolding g0_def by code_simp
  have v8: "valid (snd (validate [0..<27] g0) ! 8) = 0"
    using validate_nth [OF schedule_upt, of 8 g0] bad8 by (simp add: unit_result_valid)
  have inv: "\<not> fst (validate [0..<27] g0)"
  proof
    assume "fst (validate [0..<27] g0)"
    then have "\<forall>k<27. unit_ok g0 k" by (simp add: validate_all_ok [OF schedule_upt])
    then have "unit_ok g0 8" by simp
    then show False using bad8 by simp
  qed
  have ok9: "fst (validate [0..<27] solved_grid)"
    using solved_grid_ok by (simp add: validate_all_ok [OF schedule_upt])
  have v9: "valid (snd (validate [0..<27] solved_grid) ! 8) = 1"
    using validate_nth [OF schedule_upt, of 8 solved_grid] solved_grid_ok
    by (simp add: unit_result_valid)
  have l: "length (snd (validate [0..<27] g0)) = 27"
    by (simp add: validate_table [OF schedule_upt] del: upt_Suc)
  show ?thesis
    using len ld0 ld9 v8 inv ok9 v9 l
    unfolding fl_def [symmetric] g0_def [symmetric] m0 m9
    by (simp add: length_create_threads)
qed

section \<open>A duplicated value in a row\<close>

lemma set_cell_nth:
  assumes "wf_grid g" "r < 9" "c < 9" "a < 9" "b < 9"
  shows "set_cell g r c v ! a ! b = (if a = r \<and> b = c then v else g ! a ! b)"
proof -
  have "length g = 9" "length (g ! r) = 9"
    using assms(1,2) by (simp_all add: wf_grid_nth)
  then show ?thesis
    using assms(2-5) by (simp add: set_cell_def nth_list_update)
qed

lemma wf_grid_set_cell:
  assumes "wf_grid g"
  shows "wf_grid (set_cell g r c v)"
proof -
  have len: "length g = 9" and rows: "\<And>a. a < 9 \<Longrightarrow> length (g ! a) = 9"
    using assms by (simp_all add: wf_grid_nth)
  have "length (set_cell g r c v ! a) = 9" if "a < 9" for a
    using that len rows [of a] rows [of r]
    by (cases "a = r") (simp_all add: set_cell_def)
  then show ?thesis by (simp add: wf_grid_nth set_cell_def len)
qed

lemma unit_positions_bound:
  assumes "k < 27" "(a, b) \<in> set (unit_positions k)"
  shows "a < 9 \<and> b < 9"
proof -
  consider "k < 9" | "9 \<le> k" "k < 18" | "18 \<le> k" by arith
  then show ?thesis
  proof cases
    case 1
    then show ?thesis using assms by (auto simp: unit_positions_def simp del: upt_Suc)
  next
    case 2
    then show ?thesis using assms by (auto simp: unit_positions_def simp del: upt_Suc)
  next
    case 3
    define q where "q = (k - 18) div 3"
    define m where "m = (k - 18) mod 3"
    have q: "q < 3" using assms(1) 3 by (simp add: q_def less_mult_imp_div_less)
    have m: "m < 3" by (simp add: m_def)
    have pos: "unit_positions k =
        concat (map (\<lambda>i. map (\<lambda>j. (i, j)) [3 * m..<3 * m + 3]) [3 * q..<3 * q + 3])"
      using 3 by (simp add: unit_positions_def q_def m_def)
    have "3 * q \<le> a \<and> a < 3 * q + 3 \<and> 3 * m \<le> b \<and> b < 3 * m + 3"
      using assms(2) unfolding pos in_block .
    then show ?thesis using q m by linarith
  qed
qed

lemma unit_cells_unchanged:
  assumes "wf_grid g" "r < 9" "c < 9" "k < 27" "(r, c) \<notin> set (unit_positions k)"
  shows "unit_cells (set_cell g r c v) k = unit_cells g k"
  unfolding unit_cells_def
proof (rule map_cong [OF refl])
  fix p assume p: "p \<in> set (unit_positions k)"
  obtain a b where ab: "p = (a, b)" by (cases p)
  have "a < 9 \<and> b < 9" using unit_positions_bound [OF assms(4)] p ab by simp
  moreover have "\<not> (a = r \<and> b = c)" using p ab assms(5) by auto
  ultimately show "(case p of (r', c') \<Rightarrow> set_cell g r c v ! r' ! c') =
                   (case p of (r', c') \<Rightarrow> g ! r' ! c')"
    using set_cell_nth [OF assms(1-3), of a b v] by (auto simp: ab)
qed

lemma unit_cells_duplicate:
  assumes "wf_grid g" "r < 9" "c < 9" "k < 27" "(r, c) \<in> set (unit_positions k)"
    and "v \<in> set (unit_cells g k)" "v \<noteq> g ! r ! c"
  shows "\<not> distinct (unit_cells (set_cell g r c v) k)"
proof -
  let ?ps = "unit_positions k"
  let ?g' = "set_cell g r c v"
  obtain j where j: "j < 9" "?ps ! j = (r, c)"
    using assms(5) by (auto simp: in_set_conv_nth length_unit_positions)
  obtain j' where j': "j' < 9" "unit_cells g k ! j' = v"
    using assms(6) by (auto simp: in_set_conv_nth length_unit_cells)
  obtain a b where ab: "?ps ! j' = (a, b)" by (cases "?ps ! j'")
  have gab: "g ! a ! b = v"
    using j' ab by (simp add: unit_cells_def length_unit_positions)
  have ne: "\<not> (a = r \<and> b = c)" using gab assms(7) by auto
  then have jj: "j \<noteq> j'" using j(2) ab by auto
  have "(a, b) \<in> set ?ps" using j'(1) ab by (metis length_unit_positions nth_mem)
  then have bound: "a < 9 \<and> b < 9" using unit_positions_bound [OF assms(4)] by simp
  have "unit_cells ?g' k ! j = v"
    using j set_cell_nth [OF assms(1-3) assms(2,3), of v]
    by (simp add: unit_cells_def length_unit_positions)
  moreover have "unit_cells ?g' k ! j' = v"
    using j'(1) ab ne bound set_cell_nth [OF assms(1-3), of a b v] gab
    by (simp add: unit_cells_def length_unit_positions)
  ultimately have eq: "unit_cells ?g' k ! j = unit_cells ?g' k ! j'" by simp
  show ?thesis
  proof
    assume "distinct (unit_cells ?g' k)"
    then have "j = j'"
      using eq j(1) j'(1) by (simp add: nth_eq_iff_index_eq length_unit_cells)
    then show False using jj by simp
  qed
qed


lemma row_unit_cells: "r < 9 \<Longrightarrow> unit_cells g r = map (\<lambda>j. g ! r ! j) [0..<9]"
  by (simp add: unit_cells_def unit_positions_def comp_def)

text \<open>
  C4. Take a grid whose 27 units are all valid and overwrite one cell \<open>(r, c)\<close> with the
  value of another cell \<open>(r, c')\<close> of the same row. Then \<open>validate\<close> returns overall
  \<open>false\<close>; the outcomes with \<open>valid = 0\<close> are exactly those of the units that contain a
  duplicate, which are exactly the row, the column and the block of the cell (in a solved
  grid the value is always repeated in all three); every other outcome has \<open>valid = 1\<close>.
\<close>

theorem row_duplicate_units:
  assumes "schedule sched" "wf_grid g" "fst (validate sched g)"
    and "r < 9" "c < 9" "c' < 9" "c' \<noteq> c"
  shows "\<not> fst (validate sched (set_cell g r c (g ! r ! c')))
    \<and> (\<forall>k<27. valid (snd (validate sched (set_cell g r c (g ! r ! c'))) ! k) =
                 (if k \<in> units_of r c then 0 else 1))
    \<and> (\<forall>k<27. k \<in> units_of r c \<longleftrightarrow> (r, c) \<in> set (unit_positions k))
    \<and> (\<forall>k<27. k \<in> units_of r c \<longleftrightarrow> \<not> distinct (unit_cells (set_cell g r c (g ! r ! c')) k))
    \<and> r \<in> units_of r c"
proof -
  define v where "v = g ! r ! c'"
  define g' where "g' = set_cell g r c v"
  have ok: "unit_ok g k" if "k < 27" for k
    using assms(1,3) that by (simp add: validate_all_ok)
  have r27: "r < 27" using assms(4) by simp
  have row: "unit_cells g r = map (\<lambda>j. g ! r ! j) [0..<9]"
    using assms(4) by (rule row_unit_cells)
  have drow: "distinct (unit_cells g r)" using ok [OF r27] by (simp add: unit_ok_def)
  have "unit_cells g r ! c' \<noteq> unit_cells g r ! c"
    using drow assms(5,6,7) by (simp add: nth_eq_iff_index_eq length_unit_cells)
  then have vne: "v \<noteq> g ! r ! c"
    using assms(5,6) by (simp add: row v_def del: upt_Suc)
  have "unit_cells g r ! c' \<in> set (unit_cells g r)"
    using assms(6) by (simp add: length_unit_cells)
  then have "v \<in> set (unit_cells g r)"
    using assms(6) by (simp add: row v_def del: upt_Suc)
  then have vin: "v \<in> {1..9}"
    using ok [OF r27] by (simp add: unit_ok_perm)
  have mem: "k \<in> units_of r c \<longleftrightarrow> (r, c) \<in> set (unit_positions k)" if "k < 27" for k
    using units_of_iff [OF assms(4,5) that] by simp
  have dup: "\<not> distinct (unit_cells g' k)" if "k < 27" "k \<in> units_of r c" for k
  proof -
    have "(r, c) \<in> set (unit_positions k)" using mem that by simp
    moreover have "v \<in> set (unit_cells g k)"
      using ok [OF that(1)] vin by (simp add: unit_ok_perm)
    ultimately show ?thesis
      unfolding g'_def using assms(2,4,5) that(1) vne by (intro unit_cells_duplicate)
  qed
  have same: "unit_ok g' k" if "k < 27" "k \<notin> units_of r c" for k
  proof -
    have "(r, c) \<notin> set (unit_positions k)" using mem that by simp
    then have "unit_cells g' k = unit_cells g k"
      unfolding g'_def using assms(2,4,5) that(1) by (intro unit_cells_unchanged)
    then show ?thesis using ok [OF that(1)] by (simp add: unit_ok_def)
  qed
  have iff: "unit_ok g' k \<longleftrightarrow> k \<notin> units_of r c" if "k < 27" for k
    using dup [OF that] same [OF that] by (auto simp: unit_ok_def)
  have dist: "k \<in> units_of r c \<longleftrightarrow> \<not> distinct (unit_cells g' k)" if "k < 27" for k
    using dup [OF that] same [OF that] by (auto simp: unit_ok_def)
  have vals: "valid (snd (validate sched g') ! k) = (if k \<in> units_of r c then 0 else 1)"
    if "k < 27" for k
    using validate_nth [OF assms(1) that, of g'] iff [OF that] by (simp add: unit_result_valid)
  have rin: "r \<in> units_of r c" by (simp add: units_of_def)
  have "\<not> unit_ok g' r" using iff [OF r27] rin by simp
  then have overall: "\<not> fst (validate sched g')"
    using r27 by (auto simp: validate_all_ok [OF assms(1)])
  show ?thesis
    using overall vals mem dist rin unfolding g'_def v_def by blast
qed

theorem row_duplicate_units_witness:
  "schedule [0..<27] \<and> wf_grid solved_grid \<and> fst (validate [0..<27] solved_grid)
   \<and> set_cell solved_grid 0 0 (solved_grid ! 0 ! 1) ! 0 = [3, 3, 4, 6, 7, 8, 9, 1, 2]
   \<and> \<not> fst (validate [0..<27] (set_cell solved_grid 0 0 (solved_grid ! 0 ! 1)))
   \<and> valid (snd (validate [0..<27] (set_cell solved_grid 0 0 (solved_grid ! 0 ! 1))) ! 0) = 0
   \<and> valid (snd (validate [0..<27] (set_cell solved_grid 0 0 (solved_grid ! 0 ! 1))) ! 9) = 0
   \<and> valid (snd (validate [0..<27] (set_cell solved_grid 0 0 (solved_grid ! 0 ! 1))) ! 18) = 0
   \<and> valid (snd (validate [0..<27] (set_cell solved_grid 0 0 (solved_grid ! 0 ! 1))) ! 1) = 1
   \<and> valid (snd (validate [0..<27] (set_cell solved_grid 0 0 (solved_grid ! 0 ! 1))) ! 26) = 1"
proof -
  have v: "fst (validate [0..<27] solved_grid)"
    using solved_grid_ok by (simp add: validate_all_ok [OF schedule_upt])
  have row: "set_cell solved_grid 0 0 (solved_grid ! 0 ! 1) ! 0 = [3, 3, 4, 6, 7, 8, 9, 1, 2]"
    by code_simp
  have u: "units_of 0 0 = {0, 9, 18}" by (simp add: units_of_def)
  note t = row_duplicate_units [OF schedule_upt wf_solved_grid v, of 0 0 1]
  from t have f: "\<not> fst (validate [0..<27] (set_cell solved_grid 0 0 (solved_grid ! 0 ! 1)))"
    by simp
  from t have a: "\<forall>k<27. valid (snd (validate [0..<27]
        (set_cell solved_grid 0 0 (solved_grid ! 0 ! 1))) ! k) = (if k \<in> {0, 9, 18} then 0 else 1)"
    unfolding u by simp
  show ?thesis
    using schedule_upt wf_solved_grid v row f
      a [rule_format, of 0] a [rule_format, of 9] a [rule_format, of 18]
      a [rule_format, of 1] a [rule_format, of 26]
    by simp
qed

end
